theory Spec2Isabelle
  imports Main "HOL-Library.Sublist"
begin

section \<open>Values of the parsed configuration\<close>

text \<open>
  The plugin works on what the YAML parser hands to it: scalars, sequences and
  mappings with string keys. A mapping is kept as the ordered list of its own
  fields, in the order \<open>Object.entries\<close> enumerates them. \<open>JUndefined\<close> is the
  value JavaScript gives to a missing field; the object literal of a generated
  step can carry it (\<open>when\<close>).

  Two things are outside this model. Numbers are the integers that
  JavaScript holds exactly, printed in decimal. The values the parser builds
  for timestamps and binary data do not occur.

  The functions of the next sections work on values: an update of an object
  is the value of the updated object. That is the program on a document in
  which no sequence and no mapping is reached on two ways. Where YAML aliases
  make the parser share an object, the in-place updates of lines 117 to 121
  and 164 to 167 are seen at every place of the object: the section on the
  store has the program for that case, and on a pipeline document of the data
  model without sharing the two agree (\<open>docProcessorH_docProcessor\<close>).
\<close>

datatype jsval =
    JUndefined
  | JNull
  | JBool bool
  | JNum int
  | JStr string
  | JArr "jsval list"
  | JObj "(string \<times> jsval) list"

datatype tyerr =
    ReadOfNullish string
  | NotAFunction string
  | NullishToObject
  | NotPrimitive

datatype error = YAMLException | TypeError tyerr

definition nullish :: "jsval \<Rightarrow> bool" where
  "nullish v = (v = JNull \<or> v = JUndefined)"

definition isArray :: "jsval \<Rightarrow> bool" where
  "isArray v = (case v of JArr xs \<Rightarrow> True | _ \<Rightarrow> False)"

definition isObject :: "jsval \<Rightarrow> bool" where
  "isObject v = (case v of JObj fs \<Rightarrow> True | _ \<Rightarrow> False)"

definition elems :: "jsval \<Rightarrow> jsval list" where
  "elems v = (case v of JArr xs \<Rightarrow> xs | _ \<Rightarrow> [])"

text \<open>
  \<open>hasOwn v k\<close> is \<open>Object.hasOwn(v, k)\<close> for a value that is not nullish and a
  name \<open>k\<close> that is neither an index nor \<open>length\<close>: only a mapping owns such a
  field. \<open>getProp v k\<close> is the read \<open>v.k\<close> for the names the plugin reads
  (\<open>kind\<close>, \<open>steps\<close>, \<open>caches\<close>, \<open>name\<close>, \<open>when\<close>, \<open>volumes\<close>, \<open>settings\<close>, the
  environment keys), none of which a prototype defines.
\<close>

definition hasOwn :: "jsval \<Rightarrow> string \<Rightarrow> bool" where
  "hasOwn v k = (case v of JObj fs \<Rightarrow> map_of fs k \<noteq> None | _ \<Rightarrow> False)"

definition getProp :: "jsval \<Rightarrow> string \<Rightarrow> jsval" where
  "getProp v k =
     (case v of
        JObj fs \<Rightarrow> (case map_of fs k of Some x \<Rightarrow> x | None \<Rightarrow> JUndefined)
      | _ \<Rightarrow> JUndefined)"

text \<open>
  An assignment \<open>o.k = v\<close> overwrites the field where it stands, or appends it.
  Every receiver of an assignment in the plugin is a mapping (a generated step,
  a step that owns \<open>caches\<close>, a document of kind pipeline).
\<close>

fun putField :: "(string \<times> 'a) list \<Rightarrow> string \<Rightarrow> 'a \<Rightarrow> (string \<times> 'a) list" where
  "putField [] k v = [(k, v)]"
| "putField ((k', v') # fs) k v =
     (if k' = k then (k, v) # fs else (k', v') # putField fs k v)"

definition setProp :: "jsval \<Rightarrow> string \<Rightarrow> jsval \<Rightarrow> jsval" where
  "setProp ob k v = (case ob of JObj fs \<Rightarrow> JObj (putField fs k v) | _ \<Rightarrow> ob)"

text \<open>The operator \<open>a ?? b\<close>.\<close>

definition coalesce :: "jsval \<Rightarrow> jsval \<Rightarrow> jsval" where
  "coalesce a b = (if nullish a then b else a)"

subsection \<open>Conversion to a string\<close>

definition digitChar :: "nat \<Rightarrow> char" where
  "digitChar d = ''0123456789'' ! d"

fun showNat :: "nat \<Rightarrow> string" where
  "showNat n = (if n < 10 then [digitChar n] else showNat (n div 10) @ [digitChar (n mod 10)])"

definition showInt :: "int \<Rightarrow> string" where
  "showInt i = (if i < 0 then CHR ''-'' # showNat (nat (- i)) else showNat (nat i))"

text \<open>
  \<open>toStr\<close> is the abstract operation ToString, as a template literal and a
  property key apply it. A sequence prints as its elements joined by commas,
  with null and undefined elements printed as nothing. A mapping prints as
  \<open>[object Object]\<close> through the inherited \<open>toString\<close>; when the mapping has a
  field of that name the field, which is no function, hides the method and the
  conversion throws.
\<close>

fun toStr :: "jsval \<Rightarrow> error + string"
  and joinStr :: "jsval list \<Rightarrow> error + string" where
  "toStr JUndefined = Inr ''undefined''"
| "toStr JNull = Inr ''null''"
| "toStr (JBool b) = Inr (if b then ''true'' else ''false'')"
| "toStr (JNum n) = Inr (showInt n)"
| "toStr (JStr s) = Inr s"
| "toStr (JArr xs) = joinStr xs"
| "toStr (JObj fs) =
     (if map_of fs ''toString'' \<noteq> None then Inl (TypeError NotPrimitive)
      else Inr ''[object Object]'')"
| "joinStr [] = Inr ''''"
| "joinStr (x # xs) =
     (case (if x = JNull \<or> x = JUndefined then Inr '''' else toStr x) of
        Inl e \<Rightarrow> Inl e
      | Inr s \<Rightarrow>
          (if xs = [] then Inr s
           else (case joinStr xs of Inl e \<Rightarrow> Inl e | Inr r \<Rightarrow> Inr (s @ '','' @ r))))"

subsection \<open>Sets\<close>

text \<open>
  A \<open>Set\<close> is the list of its members in insertion order. Membership is
  SameValueZero: scalars are compared by value, and a sequence or a mapping is
  the same as no other member, each being an object of its own.
\<close>

definition isRef :: "jsval \<Rightarrow> bool" where
  "isRef v = (case v of JArr xs \<Rightarrow> True | JObj fs \<Rightarrow> True | _ \<Rightarrow> False)"

definition setHas :: "jsval list \<Rightarrow> jsval \<Rightarrow> bool" where
  "setHas s v = (\<not> isRef v \<and> v \<in> set s)"

definition setAdd :: "jsval list \<Rightarrow> jsval \<Rightarrow> jsval list" where
  "setAdd s v = (if setHas s v then s else s @ [v])"

definition newSet :: "jsval list \<Rightarrow> jsval list" where
  "newSet xs = foldl setAdd [] xs"

section \<open>The cache registry\<close>

definition cacheMap :: "(string \<times> string) list" where
  "cacheMap =
     [(''composer'', ''/root/.composer/cache''),
      (''npm'', ''/root/.npm''),
      (''yarn'', ''.yarn/cache''),
      (''dotnetcore'', ''/root/.nuget/packages''),
      (''gradle'', ''/root/.gradle/caches''),
      (''ivy2'', ''/root/.ivy2/cache''),
      (''maven'', ''/root/.m2/repository''),
      (''pip'', ''/root/.cache/pip''),
      (''sbt'', ''/root/.sbt'')]"

text \<open>
  \<open>cacheMap.hasOwnProperty(v)\<close>, the filter of line 96: the argument is
  converted to a property key first.
\<close>

definition cacheMap_hasOwnProperty :: "jsval \<Rightarrow> error + bool" where
  "cacheMap_hasOwnProperty v =
     (case toStr v of Inl e \<Rightarrow> Inl e | Inr k \<Rightarrow> Inr (map_of cacheMap k \<noteq> None))"

text \<open>\<open>path.charAt(0) === '/'\<close>\<close>

definition rooted :: "string \<Rightarrow> bool" where
  "rooted path = (take 1 path = ''/'')"

section \<open>The plugin\<close>

text \<open>
  The private fields of the class. The field \<open>image\<close> is \<open>image_name\<close> here.
  The calls of the logger have no effect on the result and are left out.
\<close>

record plugin =
  image_name :: string
  cachePath :: string
  cacheEnv :: "(string \<times> jsval) list"

text \<open>\<open>key.match(/^CACHE_/)\<close> and \<open>key.replace(/^CACHE_/, 'PLUGIN_')\<close>\<close>

definition matchCACHE :: "string \<Rightarrow> bool" where
  "matchCACHE key = (take 6 key = ''CACHE_'')"

definition replaceCACHE :: "string \<Rightarrow> string" where
  "replaceCACHE key = (if take 6 key = ''CACHE_'' then ''PLUGIN_'' @ drop 6 key else key)"

definition getCacheEnv :: "(string \<times> jsval) list \<Rightarrow> (string \<times> jsval) list" where
  "getCacheEnv env =
     foldl (\<lambda>res (key, val). putField res (replaceCACHE key) val) []
       (filter (\<lambda>(key, val). matchCACHE key) env)"

text \<open>The constructor.\<close>

definition Plugin :: "string \<Rightarrow> string \<Rightarrow> (string \<times> jsval) list \<Rightarrow> plugin" where
  "Plugin img path env = \<lparr>image_name = img, cachePath = path, cacheEnv = getCacheEnv env\<rparr>"

definition createCacheVolumes :: "jsval list \<Rightarrow> jsval list" where
  "createCacheVolumes caches =
     map (\<lambda>(name, path). JObj [(''name'', JStr name), (''temp'', JObj [])])
       (filter (\<lambda>(cache, path). setHas caches (JStr cache) \<and> rooted path) cacheMap)"

definition createCacheMounts :: "jsval list \<Rightarrow> jsval list" where
  "createCacheMounts caches =
     map (\<lambda>(name, path). JObj [(''name'', JStr name), (''path'', JStr path)])
       (filter (\<lambda>(cache, path). setHas caches (JStr cache) \<and> rooted path) cacheMap)"

definition createCacheStep ::
  "plugin \<Rightarrow> jsval \<Rightarrow> jsval \<Rightarrow> string \<Rightarrow> jsval list \<Rightarrow> error + jsval" where
  "createCacheStep p stepName whenv action caches =
     (let environment = JObj (cacheEnv p) in
      case toStr stepName of
        Inl e \<Rightarrow> Inl e
      | Inr n \<Rightarrow>
          (let step = JObj
             [(''name'', JStr (n @ ''-cache-'' @ action)),
              (''image'', JStr (image_name p)),
              (''environment'', environment),
              (''settings'', JObj
                 [(''mount'', JArr (map (\<lambda>(cache, path). JStr path)
                     (filter (\<lambda>(cache, path). setHas caches (JStr cache)) cacheMap)))]),
              (''volumes'', JArr
                 [JObj [(''name'', JStr ''cache''),
                        (''path'', coalesce (getProp environment ''PLUGIN_FILESYSTEM_CACHE_ROOT'')
                                     (JStr ''/tmp/cache''))]]),
              (''when'', whenv)]
           in Inr (setProp step ''settings''
                     (setProp (getProp step ''settings'') action (JBool True)))))"

text \<open>
  \<open>step.volumes.push\<close> is a function only when \<open>step.volumes\<close> is a sequence;
  on any other value that is not nullish the call throws.
\<close>

definition addStepVolumes :: "jsval \<Rightarrow> jsval list \<Rightarrow> error + jsval" where
  "addStepVolumes step caches =
     (let step1 = setProp step ''volumes'' (coalesce (getProp step ''volumes'') (JArr [])) in
      case getProp step1 ''volumes'' of
        JArr vs \<Rightarrow> Inr (setProp step1 ''volumes'' (JArr (vs @ createCacheMounts caches)))
      | _ \<Rightarrow> Inl (TypeError (NotAFunction ''step.volumes.push'')))"

text \<open>\<open>Array.prototype.filter\<close> with a predicate that can throw.\<close>

fun filterE :: "('a \<Rightarrow> error + bool) \<Rightarrow> 'a list \<Rightarrow> error + 'a list" where
  "filterE f [] = Inr []"
| "filterE f (x # xs) =
     (case f x of
        Inl e \<Rightarrow> Inl e
      | Inr b \<Rightarrow>
          (case filterE f xs of
             Inl e \<Rightarrow> Inl e
           | Inr ys \<Rightarrow> Inr (if b then x # ys else ys)))"

text \<open>
  The callback of \<open>flatMap\<close> (lines 89 to 113). It takes the set \<open>cachesUsed\<close>
  of the enclosing document and returns it updated, with the value the
  callback returns.
\<close>

definition stepCallback :: "plugin \<Rightarrow> jsval \<Rightarrow> jsval list \<Rightarrow> error + (jsval \<times> jsval list)" where
  "stepCallback p step cachesUsed =
     (if nullish step then Inl (TypeError NullishToObject)
      else if \<not> hasOwn step ''caches'' \<or> \<not> isArray (getProp step ''caches'')
      then Inr (step, cachesUsed)
      else
        (case filterE cacheMap_hasOwnProperty (elems (getProp step ''caches'')) of
           Inl e \<Rightarrow> Inl e
         | Inr supported \<Rightarrow>
             (let stepCaches = newSet supported in
              if length stepCaches = 0 then Inr (step, cachesUsed)
              else
                (let used = foldl setAdd cachesUsed stepCaches in
                 case createCacheStep p (getProp step ''name'') (getProp step ''when'')
                        ''restore'' stepCaches of
                   Inl e \<Rightarrow> Inl e
                 | Inr restoreStep \<Rightarrow>
                 (case createCacheStep p (getProp step ''name'') (getProp step ''when'')
                        ''rebuild'' stepCaches of
                   Inl e \<Rightarrow> Inl e
                 | Inr rebuildStep \<Rightarrow>
                 (case addStepVolumes restoreStep stepCaches of
                   Inl e \<Rightarrow> Inl e
                 | Inr r \<Rightarrow>
                 (case addStepVolumes step stepCaches of
                   Inl e \<Rightarrow> Inl e
                 | Inr s \<Rightarrow>
                 (case addStepVolumes rebuildStep stepCaches of
                   Inl e \<Rightarrow> Inl e
                 | Inr b \<Rightarrow> Inr (JArr [r, s, b], used)))))))))"

text \<open>
  \<open>flatMap\<close>: a sequence the callback returns is spliced into the result, any
  other value is one element of it.
\<close>

definition flatten1 :: "jsval \<Rightarrow> jsval list" where
  "flatten1 r = (case r of JArr xs \<Rightarrow> xs | _ \<Rightarrow> [r])"

fun flatMapSteps :: "plugin \<Rightarrow> jsval list \<Rightarrow> jsval list \<Rightarrow> error + (jsval list \<times> jsval list)" where
  "flatMapSteps p [] cachesUsed = Inr ([], cachesUsed)"
| "flatMapSteps p (step # rest) cachesUsed =
     (case stepCallback p step cachesUsed of
        Inl e \<Rightarrow> Inl e
      | Inr (r, used) \<Rightarrow>
          (case flatMapSteps p rest used of
             Inl e \<Rightarrow> Inl e
           | Inr (rs, used') \<Rightarrow> Inr (flatten1 r @ rs, used')))"

text \<open>
  \<open>doc.hasOwnProperty('steps')\<close> of line 81 looks the method up on the
  document itself: a field of that name hides the inherited method, and
  calling the field's value throws.
\<close>

definition doc_hasOwnProperty :: "jsval \<Rightarrow> string \<Rightarrow> error + bool" where
  "doc_hasOwnProperty doc k =
     (if hasOwn doc ''hasOwnProperty'' then Inl (TypeError (NotAFunction ''doc.hasOwnProperty''))
      else Inr (hasOwn doc k))"

text \<open>
  The document processor (lines 77 to 126). \<open>structuredClone\<close> copies a value
  and is the identity here. The result is the document pushed on \<open>documents\<close>.
\<close>

definition structuredClone :: "jsval \<Rightarrow> jsval" where
  "structuredClone v = v"

definition docProcessor :: "plugin \<Rightarrow> jsval \<Rightarrow> error + jsval" where
  "docProcessor p originalDoc =
     (let doc = structuredClone originalDoc in
      if nullish doc then Inl (TypeError (ReadOfNullish ''kind''))
      else if getProp doc ''kind'' \<noteq> JStr ''pipeline'' then Inr doc
      else
        (case doc_hasOwnProperty doc ''steps'' of
           Inl e \<Rightarrow> Inl e
         | Inr False \<Rightarrow> Inr doc
         | Inr True \<Rightarrow>
             (if nullish (getProp doc ''steps'') then Inl (TypeError (ReadOfNullish ''flatMap''))
              else if \<not> isArray (getProp doc ''steps'')
              then Inl (TypeError (NotAFunction ''doc.steps.flatMap''))
              else
                (case flatMapSteps p (elems (getProp doc ''steps'')) [] of
                   Inl e \<Rightarrow> Inl e
                 | Inr (steps, cachesUsed) \<Rightarrow>
                     (let doc1 = setProp doc ''steps'' (JArr steps) in
                      if length cachesUsed > 0 then
                        (let doc2 = setProp doc1 ''volumes''
                                      (coalesce (getProp doc1 ''volumes'') (JArr [])) in
                         case getProp doc2 ''volumes'' of
                           JArr vs \<Rightarrow>
                             Inr (setProp doc2 ''volumes''
                                    (JArr (vs @ [JObj [(''name'', JStr ''cache''),
                                                       (''host'', JObj [(''path'', JStr (cachePath p))])]]
                                              @ createCacheVolumes cachesUsed)))
                         | _ \<Rightarrow> Inl (TypeError (NotAFunction ''doc.volumes.push'')))
                      else Inr doc1)))))"

text \<open>
  \<open>run\<close> (lines 60 to 75). The YAML library is not part of the plugin:
  \<open>yamlParse\<close> (\<open>loadAll\<close>, which parses the whole stream before it hands the
  first document to the processor) and \<open>yamlDump\<close> are parameters.
\<close>

fun processAll :: "plugin \<Rightarrow> jsval list \<Rightarrow> error + jsval list" where
  "processAll p [] = Inr []"
| "processAll p (d # ds) =
     (case docProcessor p d of
        Inl e \<Rightarrow> Inl e
      | Inr doc \<Rightarrow>
          (case processAll p ds of Inl e \<Rightarrow> Inl e | Inr documents \<Rightarrow> Inr (doc # documents)))"

fun join :: "string \<Rightarrow> string list \<Rightarrow> string" where
  "join sep [] = ''''"
| "join sep [x] = x"
| "join sep (x # y # ys) = x @ sep @ join sep (y # ys)"

definition run ::
  "(string \<Rightarrow> error + jsval list) \<Rightarrow> (jsval \<Rightarrow> string) \<Rightarrow> plugin \<Rightarrow> string \<Rightarrow> error + string" where
  "run yamlParse yamlDump p config =
     (case yamlParse config of
        Inl e \<Rightarrow> Inl e
      | Inr parsed \<Rightarrow>
          (case processAll p parsed of
             Inl e \<Rightarrow> Inl e
           | Inr documents \<Rightarrow>
               Inr (''---'' @ [CHR 0x0A] @
                    join ([CHR 0x0A] @ ''---'' @ [CHR 0x0A]) (map yamlDump documents))))"

section \<open>The plugin on a store\<close>

text \<open>
  The functions above work on values, which is what the code does to a
  document in which no sequence and no mapping is reached twice. YAML aliases
  and merge keys make the parser hand out one object at several places,
  \<open>structuredClone\<close> keeps that sharing, and lines 117 to 121 and 164 to 167
  update objects in place. This section is the plugin on a store of objects
  with identity: a value is a scalar or a reference, an object lives in a
  cell, and the address of the cell is the identity of the object. The
  functions carry the names of the value functions with an \<open>H\<close>.
\<close>

datatype hval = HUndefined | HNull | HBool bool | HNum int | HStr string | HRef nat

datatype hobj = HArr "hval list" | HObj "(string \<times> hval) list"

type_synonym heap = "hobj list"

definition hNullish :: "hval \<Rightarrow> bool" where
  "hNullish v = (v = HNull \<or> v = HUndefined)"

definition cell :: "heap \<Rightarrow> hval \<Rightarrow> hobj option" where
  "cell h v = (case v of HRef a \<Rightarrow> (if a < length h then Some (h ! a) else None) | _ \<Rightarrow> None)"

definition hIsArray :: "heap \<Rightarrow> hval \<Rightarrow> bool" where
  "hIsArray h v = (case cell h v of Some (HArr xs) \<Rightarrow> True | _ \<Rightarrow> False)"

definition hElems :: "heap \<Rightarrow> hval \<Rightarrow> hval list" where
  "hElems h v = (case cell h v of Some (HArr xs) \<Rightarrow> xs | _ \<Rightarrow> [])"

definition hHasOwn :: "heap \<Rightarrow> hval \<Rightarrow> string \<Rightarrow> bool" where
  "hHasOwn h v k = (case cell h v of Some (HObj fs) \<Rightarrow> map_of fs k \<noteq> None | _ \<Rightarrow> False)"

definition hGetProp :: "heap \<Rightarrow> hval \<Rightarrow> string \<Rightarrow> hval" where
  "hGetProp h v k =
     (case cell h v of
        Some (HObj fs) \<Rightarrow> (case map_of fs k of Some x \<Rightarrow> x | None \<Rightarrow> HUndefined)
      | _ \<Rightarrow> HUndefined)"

text \<open>The assignment \<open>o.k = x\<close> writes the cell of \<open>o\<close>; a new object takes the next cell.\<close>

definition hSetProp :: "heap \<Rightarrow> hval \<Rightarrow> string \<Rightarrow> hval \<Rightarrow> heap" where
  "hSetProp h ob k x =
     (case ob of
        HRef a \<Rightarrow> (case cell h ob of Some (HObj fs) \<Rightarrow> h[a := HObj (putField fs k x)] | _ \<Rightarrow> h)
      | _ \<Rightarrow> h)"

definition hAlloc :: "heap \<Rightarrow> hobj \<Rightarrow> heap \<times> hval" where
  "hAlloc h ob = (h @ [ob], HRef (length h))"

text \<open>
  \<open>arr.push(...xs)\<close> appends to the cell of \<open>arr\<close>, whoever else refers to it;
  on a value that is no sequence the call throws.
\<close>

definition hPush :: "string \<Rightarrow> heap \<Rightarrow> hval \<Rightarrow> hval list \<Rightarrow> error + heap" where
  "hPush what h arr xs =
     (case arr of
        HRef a \<Rightarrow>
          (case cell h arr of
             Some (HArr ys) \<Rightarrow> Inr (h[a := HArr (ys @ xs)])
           | _ \<Rightarrow> Inl (TypeError (NotAFunction what)))
      | _ \<Rightarrow> Inl (TypeError (NotAFunction what)))"

text \<open>A literal of new objects: the tree is laid out in new cells.\<close>

fun hStore :: "heap \<Rightarrow> jsval \<Rightarrow> heap \<times> hval"
  and hStoreList :: "heap \<Rightarrow> jsval list \<Rightarrow> heap \<times> hval list"
  and hStoreFields :: "heap \<Rightarrow> (string \<times> jsval) list \<Rightarrow> heap \<times> (string \<times> hval) list" where
  "hStore h JUndefined = (h, HUndefined)"
| "hStore h JNull = (h, HNull)"
| "hStore h (JBool b) = (h, HBool b)"
| "hStore h (JNum n) = (h, HNum n)"
| "hStore h (JStr s) = (h, HStr s)"
| "hStore h (JArr xs) = (case hStoreList h xs of (h', vs) \<Rightarrow> hAlloc h' (HArr vs))"
| "hStore h (JObj fs) = (case hStoreFields h fs of (h', gs) \<Rightarrow> hAlloc h' (HObj gs))"
| "hStoreList h [] = (h, [])"
| "hStoreList h (x # xs) =
     (case hStore h x of (h1, v) \<Rightarrow> (case hStoreList h1 xs of (h2, vs) \<Rightarrow> (h2, v # vs)))"
| "hStoreFields h [] = (h, [])"
| "hStoreFields h ((k, x) # fs) =
     (case hStore h x of (h1, v) \<Rightarrow> (case hStoreFields h1 fs of (h2, gs) \<Rightarrow> (h2, (k, v) # gs)))"

text \<open>
  Reading the store. \<open>lay h v t\<close> checks that the value \<open>v\<close> of the store \<open>h\<close>
  unfolds to the tree \<open>t\<close>, following every reference, and returns the
  addresses of the cells it went through, one entry for every visit. The
  dumper is called with \<open>noRefs\<close> and writes this unfolding: \<open>denotes h v t\<close>
  says that \<open>v\<close> is written as \<open>t\<close>. When no address comes twice in the list,
  no cell is reached on two ways: \<open>unshared h v t\<close> is the store of a document
  without aliases.
\<close>

fun lay :: "heap \<Rightarrow> hval \<Rightarrow> jsval \<Rightarrow> nat list option"
  and layList :: "heap \<Rightarrow> hval list \<Rightarrow> jsval list \<Rightarrow> nat list option"
  and layFields :: "heap \<Rightarrow> (string \<times> hval) list \<Rightarrow> (string \<times> jsval) list \<Rightarrow> nat list option" where
  "lay h HUndefined JUndefined = Some []"
| "lay h HNull JNull = Some []"
| "lay h (HBool b) (JBool c) = (if b = c then Some [] else None)"
| "lay h (HNum n) (JNum m) = (if n = m then Some [] else None)"
| "lay h (HStr s) (JStr s') = (if s = s' then Some [] else None)"
| "lay h (HRef a) (JArr ts) =
     (case cell h (HRef a) of
        Some (HArr vs) \<Rightarrow> map_option (\<lambda>cs. a # cs) (layList h vs ts)
      | _ \<Rightarrow> None)"
| "lay h (HRef a) (JObj gs) =
     (case cell h (HRef a) of
        Some (HObj fs) \<Rightarrow> map_option (\<lambda>cs. a # cs) (layFields h fs gs)
      | _ \<Rightarrow> None)"
| "lay h _ _ = None"
| "layList h [] [] = Some []"
| "layList h (v # vs) (t # ts) =
     (case lay h v t of
        None \<Rightarrow> None
      | Some cs \<Rightarrow> map_option (\<lambda>ds. cs @ ds) (layList h vs ts))"
| "layList h _ _ = None"
| "layFields h [] [] = Some []"
| "layFields h ((k, v) # fs) ((k', t) # gs) =
     (if k = k'
      then (case lay h v t of
              None \<Rightarrow> None
            | Some cs \<Rightarrow> map_option (\<lambda>ds. cs @ ds) (layFields h fs gs))
      else None)"
| "layFields h _ _ = None"

definition denotes :: "heap \<Rightarrow> hval \<Rightarrow> jsval \<Rightarrow> bool" where
  "denotes h v t = (lay h v t \<noteq> None)"

definition unshared :: "heap \<Rightarrow> hval \<Rightarrow> jsval \<Rightarrow> bool" where
  "unshared h v t = (case lay h v t of None \<Rightarrow> False | Some cs \<Rightarrow> distinct cs)"

text \<open>
  ToString of a value of the store. A sequence prints its elements joined by
  commas; \<open>seen\<close> holds the sequences that are being joined, and a sequence
  that contains itself prints as nothing where it comes again.
\<close>

function toStrH :: "nat list \<Rightarrow> heap \<Rightarrow> hval \<Rightarrow> error + string"
  and joinStrH :: "nat list \<Rightarrow> heap \<Rightarrow> hval list \<Rightarrow> error + string" where
  "toStrH seen h HUndefined = Inr ''undefined''"
| "toStrH seen h HNull = Inr ''null''"
| "toStrH seen h (HBool b) = Inr (if b then ''true'' else ''false'')"
| "toStrH seen h (HNum n) = Inr (showInt n)"
| "toStrH seen h (HStr s) = Inr s"
| "toStrH seen h (HRef a) =
     (case cell h (HRef a) of
        None \<Rightarrow> Inl (TypeError NotPrimitive)
      | Some (HArr xs) \<Rightarrow> (if a \<in> set seen then Inr '''' else joinStrH (a # seen) h xs)
      | Some (HObj fs) \<Rightarrow>
          (if map_of fs ''toString'' \<noteq> None then Inl (TypeError NotPrimitive)
           else Inr ''[object Object]''))"
| "joinStrH seen h [] = Inr ''''"
| "joinStrH seen h (x # xs) =
     (case (if x = HNull \<or> x = HUndefined then Inr '''' else toStrH seen h x) of
        Inl e \<Rightarrow> Inl e
      | Inr s \<Rightarrow>
          (if xs = [] then Inr s
           else (case joinStrH seen h xs of Inl e \<Rightarrow> Inl e | Inr r \<Rightarrow> Inr (s @ '','' @ r))))"
  by pat_completeness auto

termination
proof (relation "measures
    [\<lambda>x. case x of Inl (seen, h, v) \<Rightarrow> card ({..<length h} - set seen)
                  | Inr (seen, h, xs) \<Rightarrow> card ({..<length h} - set seen),
     \<lambda>x. case x of Inl (seen, h, v) \<Rightarrow> 0 | Inr (seen, h, xs) \<Rightarrow> Suc (length xs)]")
  show "wf (measures
    [\<lambda>x. case x of Inl (seen, h, v) \<Rightarrow> card ({..<length h} - set seen)
                  | Inr (seen, h, xs) \<Rightarrow> card ({..<length h} - set seen),
     \<lambda>x. case x of Inl (seen, h, v) \<Rightarrow> 0 | Inr (seen, h, xs) \<Rightarrow> Suc (length xs)])"
    by simp
next
  fix seen :: "nat list" and h :: heap and a x2 x1
  assume c: "cell h (HRef a) = Some x2" and "x2 = HArr x1" and n: "a \<notin> set seen"
  from c have "a < length h" by (simp add: cell_def split: if_splits)
  with n have "{..<length h} - set (a # seen) \<subset> {..<length h} - set seen" by auto
  then have "card ({..<length h} - set (a # seen)) < card ({..<length h} - set seen)"
    by (intro psubset_card_mono) simp_all
  then show "(Inr (a # seen, h, x1), Inl (seen, h, HRef a)) \<in> measures
    [\<lambda>x. case x of Inl (seen, h, v) \<Rightarrow> card ({..<length h} - set seen)
                  | Inr (seen, h, xs) \<Rightarrow> card ({..<length h} - set seen),
     \<lambda>x. case x of Inl (seen, h, v) \<Rightarrow> 0 | Inr (seen, h, xs) \<Rightarrow> Suc (length xs)]"
    by simp
qed auto

definition cacheMap_hasOwnPropertyH :: "heap \<Rightarrow> hval \<Rightarrow> error + bool" where
  "cacheMap_hasOwnPropertyH h v =
     (case toStrH [] h v of Inl e \<Rightarrow> Inl e | Inr k \<Rightarrow> Inr (map_of cacheMap k \<noteq> None))"

text \<open>
  A \<open>Set\<close> of values of the store: scalars are compared by value, references
  by address.
\<close>

definition hSetAdd :: "hval list \<Rightarrow> hval \<Rightarrow> hval list" where
  "hSetAdd s v = (if v \<in> set s then s else s @ [v])"

definition hNewSet :: "hval list \<Rightarrow> hval list" where
  "hNewSet xs = foldl hSetAdd [] xs"

definition createCacheVolumesH :: "heap \<Rightarrow> hval list \<Rightarrow> heap \<times> hval list" where
  "createCacheVolumesH h caches =
     hStoreList h
       (map (\<lambda>(name, path). JObj [(''name'', JStr name), (''temp'', JObj [])])
          (filter (\<lambda>(cache, path). HStr cache \<in> set caches \<and> rooted path) cacheMap))"

definition createCacheMountsH :: "heap \<Rightarrow> hval list \<Rightarrow> heap \<times> hval list" where
  "createCacheMountsH h caches =
     hStoreList h
       (map (\<lambda>(name, path). JObj [(''name'', JStr name), (''path'', JStr path)])
          (filter (\<lambda>(cache, path). HStr cache \<in> set caches \<and> rooted path) cacheMap))"

text \<open>
  The generated step is a new object; its \<open>when\<close> is the very value of the
  step it wraps.
\<close>

definition createCacheStepH ::
  "plugin \<Rightarrow> heap \<Rightarrow> hval \<Rightarrow> hval \<Rightarrow> string \<Rightarrow> hval list \<Rightarrow> error + heap \<times> hval" where
  "createCacheStepH p h stepName whenv action caches =
     (case hStore h (JObj (cacheEnv p)) of (h1, environment) \<Rightarrow>
      case toStrH [] h1 stepName of
        Inl e \<Rightarrow> Inl e
      | Inr n \<Rightarrow>
          (case hStore h1 (JObj
                  [(''mount'', JArr (map (\<lambda>(cache, path). JStr path)
                      (filter (\<lambda>(cache, path). HStr cache \<in> set caches) cacheMap)))]) of
             (h2, settings) \<Rightarrow>
           case hStore h2 (JArr
                  [JObj [(''name'', JStr ''cache''),
                         (''path'', coalesce (getProp (JObj (cacheEnv p)) ''PLUGIN_FILESYSTEM_CACHE_ROOT'')
                                      (JStr ''/tmp/cache''))]]) of
             (h3, vols) \<Rightarrow>
           case hAlloc h3 (HObj
                  [(''name'', HStr (n @ ''-cache-'' @ action)),
                   (''image'', HStr (image_name p)),
                   (''environment'', environment),
                   (''settings'', settings),
                   (''volumes'', vols),
                   (''when'', whenv)]) of
             (h4, step) \<Rightarrow>
           Inr (hSetProp h4 (hGetProp h4 step ''settings'') action (HBool True), step)))"

definition addStepVolumesH :: "heap \<Rightarrow> hval \<Rightarrow> hval list \<Rightarrow> error + heap" where
  "addStepVolumesH h step caches =
     (case (if hNullish (hGetProp h step ''volumes'') then hAlloc h (HArr [])
            else (h, hGetProp h step ''volumes'')) of
        (h1, vols) \<Rightarrow>
          (let h2 = hSetProp h1 step ''volumes'' vols in
           case createCacheMountsH h2 caches of
             (h3, mounts) \<Rightarrow> hPush ''step.volumes.push'' h3 (hGetProp h3 step ''volumes'') mounts))"

definition stepCallbackH ::
  "plugin \<Rightarrow> heap \<Rightarrow> hval \<Rightarrow> hval list \<Rightarrow> error + heap \<times> hval \<times> hval list" where
  "stepCallbackH p h step cachesUsed =
     (if hNullish step then Inl (TypeError NullishToObject)
      else if \<not> hHasOwn h step ''caches'' \<or> \<not> hIsArray h (hGetProp h step ''caches'')
      then Inr (h, step, cachesUsed)
      else
        (case filterE (cacheMap_hasOwnPropertyH h) (hElems h (hGetProp h step ''caches'')) of
           Inl e \<Rightarrow> Inl e
         | Inr supported \<Rightarrow>
             (let stepCaches = hNewSet supported in
              if length stepCaches = 0 then Inr (h, step, cachesUsed)
              else
                (let used = foldl hSetAdd cachesUsed stepCaches in
                 case createCacheStepH p h (hGetProp h step ''name'') (hGetProp h step ''when'')
                        ''restore'' stepCaches of
                   Inl e \<Rightarrow> Inl e
                 | Inr (h1, restoreStep) \<Rightarrow>
                 (case createCacheStepH p h1 (hGetProp h1 step ''name'') (hGetProp h1 step ''when'')
                        ''rebuild'' stepCaches of
                   Inl e \<Rightarrow> Inl e
                 | Inr (h2, rebuildStep) \<Rightarrow>
                 (case addStepVolumesH h2 restoreStep stepCaches of
                   Inl e \<Rightarrow> Inl e
                 | Inr h3 \<Rightarrow>
                 (case addStepVolumesH h3 step stepCaches of
                   Inl e \<Rightarrow> Inl e
                 | Inr h4 \<Rightarrow>
                 (case addStepVolumesH h4 rebuildStep stepCaches of
                   Inl e \<Rightarrow> Inl e
                 | Inr h5 \<Rightarrow>
                     (case hAlloc h5 (HArr [restoreStep, step, rebuildStep]) of
                        (h6, r) \<Rightarrow> Inr (h6, r, used))))))))))"

fun flatMapStepsH ::
  "plugin \<Rightarrow> heap \<Rightarrow> hval list \<Rightarrow> hval list \<Rightarrow> error + heap \<times> hval list \<times> hval list" where
  "flatMapStepsH p h [] cachesUsed = Inr (h, [], cachesUsed)"
| "flatMapStepsH p h (step # rest) cachesUsed =
     (case stepCallbackH p h step cachesUsed of
        Inl e \<Rightarrow> Inl e
      | Inr (h1, r, used) \<Rightarrow>
          (case flatMapStepsH p h1 rest used of
             Inl e \<Rightarrow> Inl e
           | Inr (h2, rs, used') \<Rightarrow>
               Inr (h2, (if hIsArray h1 r then hElems h1 r else [r]) @ rs, used')))"

text \<open>
  The document processor on the store. \<open>structuredClone\<close> gives a copy of the
  same shape and the same sharing, and the original is not read again: the
  processor works on the document where it stands. The result is the store
  and the document pushed on \<open>documents\<close>.
\<close>

definition docProcessorH :: "plugin \<Rightarrow> heap \<Rightarrow> hval \<Rightarrow> error + heap \<times> hval" where
  "docProcessorH p h doc =
     (if hNullish doc then Inl (TypeError (ReadOfNullish ''kind''))
      else if hGetProp h doc ''kind'' \<noteq> HStr ''pipeline'' then Inr (h, doc)
      else if hHasOwn h doc ''hasOwnProperty''
      then Inl (TypeError (NotAFunction ''doc.hasOwnProperty''))
      else if \<not> hHasOwn h doc ''steps'' then Inr (h, doc)
      else if hNullish (hGetProp h doc ''steps'') then Inl (TypeError (ReadOfNullish ''flatMap''))
      else if \<not> hIsArray h (hGetProp h doc ''steps'')
      then Inl (TypeError (NotAFunction ''doc.steps.flatMap''))
      else
        (case flatMapStepsH p h (hElems h (hGetProp h doc ''steps'')) [] of
           Inl e \<Rightarrow> Inl e
         | Inr (h1, steps, cachesUsed) \<Rightarrow>
             (case hAlloc h1 (HArr steps) of
                (h2, arr) \<Rightarrow>
                  (let h3 = hSetProp h2 doc ''steps'' arr in
                   if length cachesUsed > 0 then
                     (case (if hNullish (hGetProp h3 doc ''volumes'') then hAlloc h3 (HArr [])
                            else (h3, hGetProp h3 doc ''volumes'')) of
                        (h4, vols) \<Rightarrow>
                          (let h5 = hSetProp h4 doc ''volumes'' vols in
                           case hStore h5 (JObj [(''name'', JStr ''cache''),
                                                 (''host'', JObj [(''path'', JStr (cachePath p))])]) of
                             (h6, hostVol) \<Rightarrow>
                               (case hPush ''doc.volumes.push'' h6 (hGetProp h6 doc ''volumes'') [hostVol] of
                                  Inl e \<Rightarrow> Inl e
                                | Inr h7 \<Rightarrow>
                                    (case createCacheVolumesH h7 cachesUsed of
                                       (h8, temps) \<Rightarrow>
                                         (case hPush ''doc.volumes.push'' h8
                                                 (hGetProp h8 doc ''volumes'') temps of
                                            Inl e \<Rightarrow> Inl e
                                          | Inr h9 \<Rightarrow> Inr (h9, doc))))))
                   else Inr (h3, doc)))))"

section \<open>Notions of the specification\<close>

text \<open>
  A cache kind is present in the registry when the test of line 96 accepts it.
  The entries of a step's \<open>caches\<close> sequence are \<open>cachesOf\<close>; the step is
  cache-eligible when \<open>caches\<close> is a sequence with a supported entry; its
  CacheSet is \<open>cacheSet\<close>.
\<close>

definition supported :: "jsval \<Rightarrow> bool" where
  "supported e = (cacheMap_hasOwnProperty e = Inr True)"

definition unsupported :: "jsval \<Rightarrow> bool" where
  "unsupported e = (cacheMap_hasOwnProperty e = Inr False)"

definition cachesOf :: "jsval \<Rightarrow> jsval list" where
  "cachesOf step = elems (getProp step ''caches'')"

definition eligible :: "jsval \<Rightarrow> bool" where
  "eligible step =
     (hasOwn step ''caches'' \<and> isArray (getProp step ''caches'') \<and> list_ex supported (cachesOf step))"

definition cacheSet :: "jsval \<Rightarrow> jsval list" where
  "cacheSet step = newSet (filter supported (cachesOf step))"

text \<open>
  The data model of a step: a mapping whose \<open>caches\<close> entries convert to
  property keys, whose \<open>name\<close> converts to a string and whose \<open>volumes\<close>,
  when present and not null, is a sequence. A pipeline document has kind
  pipeline, a sequence of such steps, \<open>volumes\<close> of the same shape, and no
  field that hides \<open>hasOwnProperty\<close>.
\<close>

definition stepOk :: "jsval \<Rightarrow> bool" where
  "stepOk step =
     (isObject step \<and>
      list_all (\<lambda>e. supported e \<or> unsupported e) (cachesOf step) \<and>
      (case toStr (getProp step ''name'') of Inl e \<Rightarrow> False | Inr n \<Rightarrow> True) \<and>
      (nullish (getProp step ''volumes'') \<or> isArray (getProp step ''volumes'')))"

definition stepsOf :: "jsval \<Rightarrow> jsval list" where
  "stepsOf doc = elems (getProp doc ''steps'')"

definition pipelineOk :: "jsval \<Rightarrow> bool" where
  "pipelineOk doc =
     (getProp doc ''kind'' = JStr ''pipeline'' \<and>
      hasOwn doc ''steps'' \<and> isArray (getProp doc ''steps'') \<and>
      \<not> hasOwn doc ''hasOwnProperty'' \<and>
      list_all stepOk (stepsOf doc) \<and>
      (nullish (getProp doc ''volumes'') \<or> isArray (getProp doc ''volumes'')))"

text \<open>
  The volume mounts a step receives: one \<open>{name, path}\<close> for every registry
  entry, in registry order, whose kind the step requests and whose path is
  rooted. \<open>withMounts\<close> is the step with these appended to its \<open>volumes\<close>.
\<close>

definition mountsOf :: "jsval \<Rightarrow> jsval list" where
  "mountsOf step =
     map (\<lambda>(name, path). JObj [(''name'', JStr name), (''path'', JStr path)])
       (filter (\<lambda>(cache, path). JStr cache \<in> set (cachesOf step) \<and> rooted path) cacheMap)"

definition withMounts :: "jsval \<Rightarrow> jsval" where
  "withMounts step =
     setProp step ''volumes'' (JArr (elems (getProp step ''volumes'') @ mountsOf step))"

text \<open>The registry paths a step requests, in registry order.\<close>

definition mountPaths :: "jsval \<Rightarrow> string list" where
  "mountPaths step =
     map snd (filter (\<lambda>(cache, path). JStr cache \<in> set (cachesOf step)) cacheMap)"


text \<open>The renaming of an environment entry.\<close>

definition renamed :: "string \<times> jsval \<Rightarrow> string \<times> jsval" where
  "renamed = (\<lambda>(key, val). (''PLUGIN_'' @ drop 6 key, val))"

text \<open>
  The closed form of a generated step as the step callback returns it, for a
  step whose name prints as \<open>n\<close>.
\<close>

definition wrapper :: "plugin \<Rightarrow> jsval \<Rightarrow> string \<Rightarrow> string \<Rightarrow> jsval" where
  "wrapper p step n action =
     JObj [(''name'', JStr (n @ ''-cache-'' @ action)),
           (''image'', JStr (image_name p)),
           (''environment'', JObj (cacheEnv p)),
           (''settings'', JObj [(''mount'', JArr (map JStr (mountPaths step))), (action, JBool True)]),
           (''volumes'', JArr
              (JObj [(''name'', JStr ''cache''),
                     (''path'', coalesce (getProp (JObj (cacheEnv p)) ''PLUGIN_FILESYSTEM_CACHE_ROOT'')
                                  (JStr ''/tmp/cache''))]
               # mountsOf step)),
           (''when'', getProp step ''when'')]"

text \<open>What a step contributes to the rewritten sequence.\<close>

definition nameOf :: "jsval \<Rightarrow> string" where
  "nameOf step = (case toStr (getProp step ''name'') of Inl e \<Rightarrow> [] | Inr n \<Rightarrow> n)"

definition expand :: "plugin \<Rightarrow> jsval \<Rightarrow> jsval list" where
  "expand p step =
     (if eligible step
      then [wrapper p step (nameOf step) ''restore'', withMounts step, wrapper p step (nameOf step) ''rebuild'']
      else [step])"

definition usedBy :: "jsval list \<Rightarrow> jsval list \<Rightarrow> jsval list" where
  "usedBy used steps = foldl (\<lambda>u s. if eligible s then foldl setAdd u (cacheSet s) else u) used steps"

text \<open>
  The ephemeral volumes of a document: one \<open>{name, temp}\<close> for every registry
  entry, in registry order, whose path is rooted and whose kind some step of
  the document requests.
\<close>

definition tempVolumes :: "jsval list \<Rightarrow> jsval list" where
  "tempVolumes steps =
     map (\<lambda>(name, path). JObj [(''name'', JStr name), (''temp'', JObj [])])
       (filter (\<lambda>(cache, path). list_ex (\<lambda>s. JStr cache \<in> set (cachesOf s)) steps \<and> rooted path)
          cacheMap)"

definition hostVolume :: "plugin \<Rightarrow> jsval" where
  "hostVolume p = JObj [(''name'', JStr ''cache''), (''host'', JObj [(''path'', JStr (cachePath p))])]"

text \<open>
  A step without a usable cache request: a value that is neither null nor a
  sequence, and whose \<open>caches\<close> is absent, or is no sequence, or holds only
  entries the registry test rejects.
\<close>

definition uncached :: "jsval \<Rightarrow> bool" where
  "uncached step =
     (\<not> nullish step \<and> \<not> isArray step \<and>
      (\<not> hasOwn step ''caches'' \<or> \<not> isArray (getProp step ''caches'')
       \<or> list_all unsupported (cachesOf step)))"

text \<open>
  A document that the processor hands on as it is: not null, and when it is a
  pipeline with steps, the steps are a sequence of uncached steps and no field
  hides \<open>hasOwnProperty\<close>.
\<close>

definition plainDoc :: "jsval \<Rightarrow> bool" where
  "plainDoc doc =
     (\<not> nullish doc \<and>
      (getProp doc ''kind'' \<noteq> JStr ''pipeline'' \<or>
       (\<not> hasOwn doc ''hasOwnProperty'' \<and>
        (\<not> hasOwn doc ''steps'' \<or>
         (isArray (getProp doc ''steps'') \<and> list_all uncached (stepsOf doc))))))"

text \<open>A document none of whose steps is cache-eligible.\<close>

definition noEligibleStep :: "jsval \<Rightarrow> bool" where
  "noEligibleStep doc = list_all (\<lambda>s. \<not> eligible s) (stepsOf doc)"

text \<open>The text \<open>run\<close> returns for a sequence of documents.\<close>

definition serialise :: "(jsval \<Rightarrow> string) \<Rightarrow> jsval list \<Rightarrow> string" where
  "serialise yamlDump docs =
     ''---'' @ [CHR 0x0A] @ join ([CHR 0x0A] @ ''---'' @ [CHR 0x0A]) (map yamlDump docs)"

text \<open>The closed form of the document the processor returns for a pipeline.\<close>

definition rewritten :: "plugin \<Rightarrow> jsval \<Rightarrow> jsval" where
  "rewritten p doc =
     (if list_ex eligible (stepsOf doc)
      then setProp (setProp doc ''steps'' (JArr (concat (map (expand p) (stepsOf doc))))) ''volumes''
             (JArr (elems (getProp doc ''volumes'') @ hostVolume p # tempVolumes (stepsOf doc)))
      else doc)"

section \<open>Example inputs\<close>

text \<open>
  The plugin of the test suite, a plugin built from an environment with two
  cache variables, and three documents: a pipeline with one cached step
  between two others, the pipeline of the test for a relative cache path, and
  a pipeline that requests the same kinds in several steps.
\<close>

definition testPlugin :: plugin where
  "testPlugin = Plugin ''foo'' ''/tmp/cache'' []"

definition exampleEnv :: "(string \<times> jsval) list" where
  "exampleEnv =
     [(''CACHE_BACKEND'', JStr ''filesystem''), (''HOME'', JStr ''/root''),
      (''CACHE_ARCHIVE_FORMAT'', JStr ''gzip'')]"

definition buildStep :: jsval where
  "buildStep = JObj [(''name'', JStr ''build''), (''caches'', JArr [JStr ''npm''])]"

definition exampleDoc :: jsval where
  "exampleDoc =
     JObj [(''kind'', JStr ''pipeline''),
           (''steps'', JArr [JObj [(''name'', JStr ''lint'')],
                             buildStep,
                             JObj [(''name'', JStr ''test''), (''caches'', JArr [JStr ''foo''])]])]"

definition yarnDoc :: jsval where
  "yarnDoc =
     JObj [(''kind'', JStr ''pipeline''),
           (''steps'', JArr [JObj [(''name'', JStr ''build''), (''caches'', JArr [JStr ''yarn''])]])]"

definition manyStep :: jsval where
  "manyStep =
     JObj [(''name'', JStr ''build''),
           (''caches'', JArr [JStr ''npm'', JStr ''composer'', JStr ''npm'', JStr ''foo'', JStr ''yarn''])]"

definition sharedDoc :: jsval where
  "sharedDoc =
     JObj [(''kind'', JStr ''pipeline''),
           (''volumes'', JArr [JObj [(''name'', JStr ''data''), (''temp'', JObj [])]]),
           (''steps'', JArr [manyStep,
                             JObj [(''name'', JStr ''test''), (''caches'', JArr [JStr ''npm'', JStr ''pip''])]])]"

definition plainStream :: "jsval list" where
  "plainStream =
     [JObj [(''kind'', JStr ''foo''), (''steps'', JArr [buildStep])],
      JObj [(''kind'', JStr ''pipeline'')],
      JObj [(''kind'', JStr ''pipeline''),
            (''steps'', JArr [JObj [(''name'', JStr ''bar'')],
                              JObj [(''caches'', JStr ''npm'')],
                              JObj [(''caches'', JArr [JStr ''foo''])]])]]"

text \<open>
  Stand-ins for the YAML library in the examples: a parser that reads every
  text as the given documents, a parser that reads the empty text as the
  empty stream and every other text as one null document, and a dumper.
\<close>

definition parsesTo :: "jsval list \<Rightarrow> string \<Rightarrow> error + jsval list" where
  "parsesTo docs config = Inr docs"

definition emptyOrNull :: "string \<Rightarrow> error + jsval list" where
  "emptyOrNull config = (if config = [] then Inr [] else Inr [JNull])"

definition dumpStub :: "jsval \<Rightarrow> string" where
  "dumpStub doc = ''{}''"

section \<open>Notions of the specification, on the store\<close>

text \<open>
  What the processor leaves in the store, read as the dumper reads it:
  \<open>yields r t\<close> says that the processor returned, and that the document it
  pushed is written as the tree \<open>t\<close>.
\<close>

definition yields :: "error + heap \<times> hval \<Rightarrow> jsval \<Rightarrow> bool" where
  "yields r t = (case r of Inl e \<Rightarrow> False | Inr (h, d) \<Rightarrow> denotes h d t)"

text \<open>
  The processor on a document that the parser has laid out without sharing:
  the tree is stored in new cells, and the processor runs on that store.
\<close>

definition processFresh :: "plugin \<Rightarrow> jsval \<Rightarrow> error + heap \<times> hval" where
  "processFresh p t = (case hStore [] t of (h, d) \<Rightarrow> docProcessorH p h d)"

text \<open>
  What the rewriting needs of a pipeline document. A step is neither null
  nor a sequence, and the entries of its \<open>caches\<close> convert to property keys;
  the name of a cache-eligible step converts to a string and its \<open>volumes\<close>
  is absent, null or a sequence. The document has kind pipeline, a sequence
  of such steps and no field that hides \<open>hasOwnProperty\<close>, and when a step is
  cache-eligible its \<open>volumes\<close> is absent, null or a sequence. Every document
  of the data model (\<open>pipelineOk\<close>) is one of these.
\<close>

definition rewritableStep :: "jsval \<Rightarrow> bool" where
  "rewritableStep step =
     (\<not> nullish step \<and> \<not> isArray step \<and>
      list_all (\<lambda>e. supported e \<or> unsupported e) (cachesOf step) \<and>
      (eligible step \<longrightarrow>
         (case toStr (getProp step ''name'') of Inl e \<Rightarrow> False | Inr n \<Rightarrow> True) \<and>
         (nullish (getProp step ''volumes'') \<or> isArray (getProp step ''volumes''))))"

definition rewritable :: "jsval \<Rightarrow> bool" where
  "rewritable doc =
     (getProp doc ''kind'' = JStr ''pipeline'' \<and>
      hasOwn doc ''steps'' \<and> isArray (getProp doc ''steps'') \<and>
      \<not> hasOwn doc ''hasOwnProperty'' \<and>
      list_all rewritableStep (stepsOf doc) \<and>
      (list_ex eligible (stepsOf doc) \<longrightarrow>
         nullish (getProp doc ''volumes'') \<or> isArray (getProp doc ''volumes'')))"

text \<open>
  The registry test on the store, and a step without a usable cache request:
  a value that is neither null nor a sequence, and whose \<open>caches\<close> is absent,
  or is no sequence, or holds only entries the registry test rejects.
\<close>

definition unsupportedH :: "heap \<Rightarrow> hval \<Rightarrow> bool" where
  "unsupportedH h e = (cacheMap_hasOwnPropertyH h e = Inr False)"

definition uncachedH :: "heap \<Rightarrow> hval \<Rightarrow> bool" where
  "uncachedH h step =
     (\<not> hNullish step \<and> \<not> hIsArray h step \<and>
      (\<not> hHasOwn h step ''caches'' \<or> \<not> hIsArray h (hGetProp h step ''caches'')
       \<or> list_all (unsupportedH h) (hElems h (hGetProp h step ''caches''))))"

subsection \<open>Example stores\<close>


definition npmMount :: jsval where
  "npmMount = JObj [(''name'', JStr ''npm''), (''path'', JStr ''/root/.npm'')]"










definition lintStep :: jsval where
  "lintStep = JObj [(''name'', JStr ''lint''), (''volumes'', JArr [])]"

definition lintDoc :: jsval where
  "lintDoc =
     JObj [(''kind'', JStr ''pipeline''),
           (''steps'', JArr [lintStep,
                             JObj [(''name'', JStr ''build''), (''caches'', JArr [JStr ''npm'']),
                                   (''volumes'', JArr [])]])]"

definition lintStore :: heap where
  "lintStore =
     [HObj [(''kind'', HStr ''pipeline''), (''steps'', HRef 1)],
      HArr [HRef 2, HRef 4],
      HObj [(''name'', HStr ''lint''), (''volumes'', HRef 3)],
      HArr [],
      HObj [(''name'', HStr ''build''), (''caches'', HRef 5), (''volumes'', HRef 3)],
      HArr [HStr ''npm'']]"

text \<open>
  A store without sharing: a pipeline whose three steps request no usable
  cache, and the tree it is written as.
\<close>

definition plainDocument :: jsval where
  "plainDocument =
     JObj [(''kind'', JStr ''pipeline''),
           (''steps'', JArr [JObj [(''name'', JStr ''bar'')], JObj [(''caches'', JStr ''npm'')],
                             JObj [(''caches'', JArr [JStr ''foo''])]])]"

definition plainStore :: heap where
  "plainStore =
     [HObj [(''kind'', HStr ''pipeline''), (''steps'', HRef 1)],
      HArr [HRef 2, HRef 3, HRef 4],
      HObj [(''name'', HStr ''bar'')],
      HObj [(''caches'', HStr ''npm'')],
      HObj [(''caches'', HRef 5)],
      HArr [HStr ''foo'']]"

subsection \<open>Auxiliary notions\<close>

text \<open>
  The value of a field as a read gives it, and a list of fields without the
  first field of a name; \<open>mountList\<close> is the list of mounts that
  \<open>createCacheMountsH\<close> stores for a set of caches.
\<close>

definition fieldH :: "(string \<times> hval) list \<Rightarrow> string \<Rightarrow> hval" where
  "fieldH fs k = (case map_of fs k of Some x \<Rightarrow> x | None \<Rightarrow> HUndefined)"

definition fieldT :: "(string \<times> jsval) list \<Rightarrow> string \<Rightarrow> jsval" where
  "fieldT gs k = (case map_of gs k of Some x \<Rightarrow> x | None \<Rightarrow> JUndefined)"

fun delFirst :: "string \<Rightarrow> (string \<times> 'a) list \<Rightarrow> (string \<times> 'a) list" where
  "delFirst k [] = []"
| "delFirst k ((k', v) # fs) = (if k' = k then fs else (k', v) # delFirst k fs)"

definition mountList :: "hval list \<Rightarrow> jsval list" where
  "mountList caches =
     map (\<lambda>(name, path). JObj [(''name'', JStr name), (''path'', JStr path)])
       (filter (\<lambda>(cache, path). HStr cache \<in> set caches \<and> rooted path) cacheMap)"

definition pathList :: "hval list \<Rightarrow> jsval list" where
  "pathList caches =
     map (\<lambda>(cache, path). JStr path) (filter (\<lambda>(cache, path). HStr cache \<in> set caches) cacheMap)"

definition genStep :: "plugin \<Rightarrow> string \<Rightarrow> jsval \<Rightarrow> string \<Rightarrow> hval list \<Rightarrow> (string \<times> jsval) list" where
  "genStep p n whenT action caches =
     [(''name'', JStr (n @ ''-cache-'' @ action)),
      (''image'', JStr (image_name p)),
      (''environment'', JObj (cacheEnv p)),
      (''settings'', JObj (putField [(''mount'', JArr (pathList caches))] action (JBool True))),
      (''volumes'', JArr
         [JObj [(''name'', JStr ''cache''),
                (''path'', coalesce (getProp (JObj (cacheEnv p)) ''PLUGIN_FILESYSTEM_CACHE_ROOT'')
                             (JStr ''/tmp/cache''))]]),
      (''when'', whenT)]"

text \<open>
  \<open>extends h h' X\<close>: the store \<open>h'\<close> has the cells of \<open>h\<close>, unchanged outside
  \<open>X\<close>, and possibly more. \<open>sameKinds\<close> relates a set of the store to a set of
  values with the same strings, both empty or both not.
\<close>

definition extends :: "heap \<Rightarrow> heap \<Rightarrow> nat set \<Rightarrow> bool" where
  "extends h h' X = (length h \<le> length h' \<and> (\<forall>x<length h. x \<notin> X \<longrightarrow> h' ! x = h ! x))"

definition sameKinds :: "hval list \<Rightarrow> jsval list \<Rightarrow> bool" where
  "sameKinds xs ys = ((xs = [] \<longleftrightarrow> ys = []) \<and> (\<forall>k. HStr k \<in> set xs \<longleftrightarrow> JStr k \<in> set ys))"





text \<open>
  The objects that the processor updates in place when it rewrites a
  document: the cache-eligible steps, their \<open>volumes\<close> and, when there is such
  a step, the \<open>volumes\<close> of the document. \<open>apart h d doc\<close> says that the store
  holds the document \<open>doc\<close> at \<open>d\<close> and that each of these objects is reached
  on one way only: its address comes once in the list of the cells visited.
  Any other object may be shared.
\<close>

definition written :: "heap \<Rightarrow> hval \<Rightarrow> jsval \<Rightarrow> hval list" where
  "written h d doc =
     (let es = map fst (filter (\<lambda>(v, t). eligible t)
                          (zip (hElems h (hGetProp h d ''steps'')) (stepsOf doc)))
      in (if es = [] then [] else [hGetProp h d ''volumes''])
         @ es @ map (\<lambda>v. hGetProp h v ''volumes'') es)"

definition reachedOnce :: "nat list \<Rightarrow> hval \<Rightarrow> bool" where
  "reachedOnce cs v = (case v of HRef a \<Rightarrow> count_list cs a = 1 | _ \<Rightarrow> True)"

definition apart :: "heap \<Rightarrow> hval \<Rightarrow> jsval \<Rightarrow> bool" where
  "apart h d doc =
     (case lay h d doc of None \<Rightarrow> False | Some cs \<Rightarrow> list_all (reachedOnce cs) (written h d doc))"

text \<open>
  The number of sequences and mappings of a value, the cells that the
  callback writes for a step, and those it writes for a sequence of steps.
\<close>

fun nodes :: "jsval \<Rightarrow> nat"
  and nodesList :: "jsval list \<Rightarrow> nat"
  and nodesFields :: "(string \<times> jsval) list \<Rightarrow> nat" where
  "nodes (JArr ts) = Suc (nodesList ts)"
| "nodes (JObj gs) = Suc (nodesFields gs)"
| "nodes JUndefined = 0"
| "nodes JNull = 0"
| "nodes (JBool b) = 0"
| "nodes (JNum n) = 0"
| "nodes (JStr s) = 0"
| "nodesList [] = 0"
| "nodesList (t # ts) = nodes t + nodesList ts"
| "nodesFields [] = 0"
| "nodesFields ((k, t) # gs) = nodes t + nodesFields gs"

definition targets :: "heap \<Rightarrow> hval \<Rightarrow> nat set" where
  "targets h v = {a. v = HRef a} \<union> {x. hGetProp h v ''volumes'' = HRef x}"

definition writes :: "heap \<Rightarrow> hval list \<Rightarrow> jsval list \<Rightarrow> nat set" where
  "writes h vs ts = (\<Union>(v, t)\<in>set (zip vs ts). if eligible t then targets h v else {})"

section \<open>Auxiliary facts\<close>

subsection \<open>Every failure of the plugin is a TypeError\<close>

lemma toStr_error:
  "toStr v = Inl e \<longrightarrow> (\<exists>t. e = TypeError t)"
  "joinStr vs = Inl e \<longrightarrow> (\<exists>t. e = TypeError t)"
  by (induction v and vs rule: toStr_joinStr.induct) (auto split: sum.splits if_splits)

lemma cacheMap_hasOwnProperty_error:
  "cacheMap_hasOwnProperty v = Inl e \<Longrightarrow> \<exists>t. e = TypeError t"
  using toStr_error(1)[of v e] by (auto simp: cacheMap_hasOwnProperty_def split: sum.splits)

lemma filterE_error:
  "filterE cacheMap_hasOwnProperty xs = Inl e \<Longrightarrow> \<exists>t. e = TypeError t"
  by (induction xs) (auto split: sum.splits dest: cacheMap_hasOwnProperty_error)

lemma createCacheStep_error:
  "createCacheStep p n w a cs = Inl e \<Longrightarrow> \<exists>t. e = TypeError t"
  using toStr_error(1)[of n e] by (auto simp: createCacheStep_def Let_def split: sum.splits)

lemma addStepVolumes_error:
  "addStepVolumes s cs = Inl e \<Longrightarrow> \<exists>t. e = TypeError t"
  by (auto simp: addStepVolumes_def Let_def split: jsval.splits)

lemma stepCallback_error:
  "stepCallback p s u = Inl e \<Longrightarrow> \<exists>t. e = TypeError t"
  unfolding stepCallback_def Let_def
  by (auto split: if_splits sum.splits
        dest: createCacheStep_error addStepVolumes_error filterE_error)

lemma flatMapSteps_error:
  "flatMapSteps p ss u = Inl e \<Longrightarrow> \<exists>t. e = TypeError t"
  by (induction ss arbitrary: u) (auto split: sum.splits prod.splits dest: stepCallback_error)

lemma docProcessor_error:
  "docProcessor p d = Inl e \<Longrightarrow> \<exists>t. e = TypeError t"
  unfolding docProcessor_def Let_def doc_hasOwnProperty_def
  by (auto split: if_splits sum.splits prod.splits bool.splits jsval.splits
        dest: flatMapSteps_error)

lemma processAll_error:
  "processAll p ds = Inl e \<Longrightarrow> \<exists>t. e = TypeError t"
  by (induction ds) (auto split: sum.splits dest: docProcessor_error)

lemma docProcessor_null: "docProcessor p JNull = Inl (TypeError (ReadOfNullish ''kind''))"
  by (simp add: docProcessor_def structuredClone_def nullish_def)

lemma processAll_null_fails: "JNull \<in> set ds \<Longrightarrow> \<exists>e. processAll p ds = Inl e"
  by (induction ds) (auto simp: docProcessor_null split: sum.splits)

lemma processAll_append_ok:
  "\<forall>d\<in>set pre. \<exists>d'. docProcessor p d = Inr d' \<Longrightarrow>
   processAll p (pre @ rest) =
     (case processAll p rest of
        Inl e \<Rightarrow> Inl e
      | Inr ds \<Rightarrow> (case processAll p pre of Inl e \<Rightarrow> Inl e | Inr ps \<Rightarrow> Inr (ps @ ds)))"
  by (induction pre) (auto split: sum.splits)

subsection \<open>Closed form of the step callback\<close>

lemma putField_fresh: "k \<notin> fst ` set fs \<Longrightarrow> putField fs k v = fs @ [(k, v)]"
  by (induction fs) auto

lemma putField_same: "map_of fs k = Some v \<Longrightarrow> putField fs k v = fs"
  by (induction fs) (auto split: if_splits)

lemma putField_twice: "putField (putField fs k v) k w = putField fs k w"
  by (induction fs) auto

lemma map_of_putField: "map_of (putField fs k v) k' = (if k' = k then Some v else map_of fs k')"
  by (induction fs) auto

lemma set_setAdd: "set (setAdd s v) = insert v (set s)"
  by (auto simp: setAdd_def setHas_def)

lemma set_foldl_setAdd: "set (foldl setAdd acc xs) = set acc \<union> set xs"
  by (induction xs arbitrary: acc) (auto simp: set_setAdd)

lemma set_newSet: "set (newSet xs) = set xs"
  by (simp add: newSet_def set_foldl_setAdd)

lemma newSet_Nil_iff: "newSet xs = [] \<longleftrightarrow> xs = []"
  by (metis set_newSet set_empty)

lemma setHas_str: "setHas s (JStr k) \<longleftrightarrow> JStr k \<in> set s"
  by (simp add: setHas_def isRef_def)

lemma filterE_ok:
  "list_all (\<lambda>e. supported e \<or> unsupported e) xs \<Longrightarrow>
   filterE cacheMap_hasOwnProperty xs = Inr (filter supported xs)"
  by (induction xs) (auto simp: supported_def unsupported_def)

lemma supported_key: "(k, path) \<in> set cacheMap \<Longrightarrow> supported (JStr k)"
proof -
  assume "(k, path) \<in> set cacheMap"
  then have "k \<in> fst ` set cacheMap" by force
  then have "map_of cacheMap k \<noteq> None" by (simp add: map_of_eq_None_iff)
  then show ?thesis by (simp add: supported_def cacheMap_hasOwnProperty_def)
qed

lemma setHas_cacheSet:
  "(k, path) \<in> set cacheMap \<Longrightarrow> setHas (cacheSet step) (JStr k) \<longleftrightarrow> JStr k \<in> set (cachesOf step)"
  by (auto simp: setHas_str cacheSet_def set_newSet supported_key)

lemma createCacheMounts_cacheSet: "createCacheMounts (cacheSet step) = mountsOf step"
  unfolding createCacheMounts_def mountsOf_def
  by (rule arg_cong[where f="map _"], rule filter_cong) (auto simp: setHas_cacheSet)

lemma mount_cacheSet:
  "map (\<lambda>(cache, path). JStr path) (filter (\<lambda>(cache, path). setHas (cacheSet step) (JStr cache)) cacheMap)
   = map JStr (mountPaths step)"
proof -
  have "filter (\<lambda>(cache, path). setHas (cacheSet step) (JStr cache)) cacheMap
        = filter (\<lambda>(cache, path). JStr cache \<in> set (cachesOf step)) cacheMap"
    by (rule filter_cong) (auto simp: setHas_cacheSet)
  then show ?thesis by (simp add: mountPaths_def case_prod_beta comp_def)
qed

lemma addStepVolumes_ok:
  assumes "isObject step" and "nullish (getProp step ''volumes'') \<or> isArray (getProp step ''volumes'')"
  shows "addStepVolumes step caches =
           Inr (setProp step ''volumes'' (JArr (elems (getProp step ''volumes'') @ createCacheMounts caches)))"
proof -
  from assms(1) obtain fs where s: "step = JObj fs" by (cases step) (auto simp: isObject_def)
  show ?thesis
  proof (cases "nullish (getProp step ''volumes'')")
    case True
    then have "elems (getProp step ''volumes'') = []" by (auto simp: nullish_def elems_def)
    with True s show ?thesis
      by (simp add: addStepVolumes_def coalesce_def setProp_def getProp_def map_of_putField putField_twice)
  next
    case False
    with assms(2) obtain vs where v: "getProp step ''volumes'' = JArr vs"
      by (cases "getProp step ''volumes''") (auto simp: isArray_def)
    with s have "map_of fs ''volumes'' = Some (JArr vs)"
      by (auto simp: getProp_def split: option.splits)
    with s v False show ?thesis
      by (simp add: addStepVolumes_def coalesce_def setProp_def getProp_def putField_same elems_def)
  qed
qed

lemma createCacheStep_ok:
  assumes "toStr (getProp step ''name'') = Inr n" and "action = ''restore'' \<or> action = ''rebuild''"
  shows "\<exists>st. createCacheStep p (getProp step ''name'') (getProp step ''when'') action (cacheSet step) = Inr st \<and>
          addStepVolumes st (cacheSet step) = Inr (wrapper p step n action)"
  using assms
  by (auto simp: createCacheStep_def Let_def mount_cacheSet setProp_def getProp_def
       addStepVolumes_def coalesce_def nullish_def wrapper_def createCacheMounts_cacheSet)


lemma stepCallback_plain:
  assumes "\<not> nullish step"
    and "\<not> hasOwn step ''caches'' \<or> \<not> isArray (getProp step ''caches'') \<or> list_all unsupported (cachesOf step)"
  shows "stepCallback p step used = Inr (step, used)"
proof (cases "\<not> hasOwn step ''caches'' \<or> \<not> isArray (getProp step ''caches'')")
  case True
  with assms(1) show ?thesis by (auto simp: stepCallback_def)
next
  case False
  with assms(2) have u: "list_all unsupported (cachesOf step)" by blast
  then have "list_all (\<lambda>e. supported e \<or> unsupported e) (cachesOf step)"
    by (simp add: list_all_iff)
  then have f: "filterE cacheMap_hasOwnProperty (cachesOf step) = Inr (filter supported (cachesOf step))"
    by (rule filterE_ok)
  have "filter supported (cachesOf step) = []"
    using u by (auto simp: filter_empty_conv list_all_iff supported_def unsupported_def)
  with f False assms(1) show ?thesis
    by (simp add: stepCallback_def cachesOf_def newSet_def)
qed

lemma stepCallback_eligible:
  assumes ok: "stepOk step" and el: "eligible step" and n: "toStr (getProp step ''name'') = Inr n"
  shows "stepCallback p step used =
           Inr (JArr [wrapper p step n ''restore'', withMounts step, wrapper p step n ''rebuild''],
                foldl setAdd used (cacheSet step))"
proof -
  from ok have obj: "isObject step"
    and vol: "nullish (getProp step ''volumes'') \<or> isArray (getProp step ''volumes'')"
    and keys: "list_all (\<lambda>e. supported e \<or> unsupported e) (cachesOf step)"
    by (simp_all add: stepOk_def)
  from obj have nn: "\<not> nullish step" by (auto simp: isObject_def nullish_def)
  from keys have f: "filterE cacheMap_hasOwnProperty (elems (getProp step ''caches'')) = Inr (filter supported (cachesOf step))"
    unfolding cachesOf_def[symmetric] by (rule filterE_ok)
  from el have "filter supported (cachesOf step) \<noteq> []"
    by (auto simp: eligible_def list_ex_iff filter_empty_conv)
  then have ne: "cacheSet step \<noteq> []" by (simp add: cacheSet_def newSet_Nil_iff)
  obtain r where r: "createCacheStep p (getProp step ''name'') (getProp step ''when'') ''restore'' (cacheSet step) = Inr r"
      "addStepVolumes r (cacheSet step) = Inr (wrapper p step n ''restore'')"
    using createCacheStep_ok[OF n, of "''restore''" p] by auto
  obtain b where b: "createCacheStep p (getProp step ''name'') (getProp step ''when'') ''rebuild'' (cacheSet step) = Inr b"
      "addStepVolumes b (cacheSet step) = Inr (wrapper p step n ''rebuild'')"
    using createCacheStep_ok[OF n, of "''rebuild''" p] by auto
  have s: "addStepVolumes step (cacheSet step) = Inr (withMounts step)"
    using addStepVolumes_ok[OF obj vol] by (simp add: withMounts_def createCacheMounts_cacheSet)
  from el have c: "hasOwn step ''caches''" "isArray (getProp step ''caches'')" by (simp_all add: eligible_def)
  show ?thesis
    unfolding stepCallback_def Let_def using nn c ne
    by (simp add: f cacheSet_def[symmetric] r b s)
qed

lemma not_eligible_unsupported:
  "stepOk step \<Longrightarrow> \<not> eligible step \<Longrightarrow>
   \<not> hasOwn step ''caches'' \<or> \<not> isArray (getProp step ''caches'') \<or> list_all unsupported (cachesOf step)"
  by (auto simp: stepOk_def eligible_def list_all_iff list_ex_iff)

lemma stepCallback_ok:
  assumes "stepOk step"
  shows "\<exists>r. stepCallback p step used = Inr (r, usedBy used [step]) \<and> flatten1 r = expand p step"
proof (cases "eligible step")
  case True
  from assms obtain n where n: "toStr (getProp step ''name'') = Inr n"
    by (auto simp: stepOk_def split: sum.splits)
  then have "nameOf step = n" by (simp add: nameOf_def)
  with stepCallback_eligible[OF assms True n, of p used] True show ?thesis
    by (simp add: usedBy_def expand_def flatten1_def)
next
  case False
  from assms have obj: "isObject step" by (simp add: stepOk_def)
  then have "\<not> nullish step" "flatten1 step = [step]"
    by (auto simp: isObject_def nullish_def flatten1_def split: jsval.splits)
  with stepCallback_plain[OF _ not_eligible_unsupported[OF assms False], of p used] False
  show ?thesis by (simp add: usedBy_def expand_def)
qed

lemma usedBy_Cons: "usedBy used (s # ss) = usedBy (usedBy used [s]) ss"
  by (simp add: usedBy_def)

lemma flatMapSteps_ok:
  "list_all stepOk steps \<Longrightarrow>
   flatMapSteps p steps used = Inr (concat (map (expand p) steps), usedBy used steps)"
proof (induction steps arbitrary: used)
  case Nil
  then show ?case by (simp add: usedBy_def)
next
  case (Cons s ss)
  then have "stepOk s" "list_all stepOk ss" by simp_all
  from stepCallback_ok[OF this(1), of p used] obtain r where
    r: "stepCallback p s used = Inr (r, usedBy used [s])" "flatten1 r = expand p s" by blast
  show ?case
    using r Cons.IH[OF \<open>list_all stepOk ss\<close>, of "usedBy used [s]"]
    by (simp add: usedBy_Cons[of used s ss])
qed

subsection \<open>Closed form of the document processor\<close>

lemma foldl_setAdd_Nil_iff: "foldl setAdd u xs = [] \<longleftrightarrow> u = [] \<and> xs = []"
  by (metis set_foldl_setAdd set_empty Un_empty)

lemma eligible_cacheSet: "eligible s \<Longrightarrow> cacheSet s \<noteq> []"
  by (auto simp: eligible_def cacheSet_def newSet_Nil_iff list_ex_iff filter_empty_conv)

lemma usedBy_Nil_iff: "usedBy used steps = [] \<longleftrightarrow> used = [] \<and> \<not> list_ex eligible steps"
proof (induction steps arbitrary: used)
  case Nil
  then show ?case by (simp add: usedBy_def)
next
  case (Cons s ss)
  have "usedBy used [s] = [] \<longleftrightarrow> used = [] \<and> \<not> eligible s"
    by (auto simp: usedBy_def foldl_setAdd_Nil_iff eligible_cacheSet)
  with Cons.IH[of "usedBy used [s]"] show ?case
    by (simp add: usedBy_Cons[of used s ss])
qed

lemma set_usedBy:
  "set (usedBy used steps) = set used \<union> (\<Union>s\<in>{s \<in> set steps. eligible s}. set (cacheSet s))"
proof (induction steps arbitrary: used)
  case Nil
  then show ?case by (simp add: usedBy_def)
next
  case (Cons s ss)
  have "set (usedBy used [s]) = set used \<union> (if eligible s then set (cacheSet s) else {})"
    by (simp add: usedBy_def set_foldl_setAdd)
  with Cons.IH[of "usedBy used [s]"] show ?case
    by (auto simp: usedBy_Cons[of used s ss])
qed

lemma requested_eligible:
  assumes "e \<in> set (cachesOf s)" and "supported e"
  shows "eligible s"
proof -
  from assms(1) obtain xs where xs: "getProp s ''caches'' = JArr xs"
    by (cases "getProp s ''caches''") (auto simp: cachesOf_def elems_def)
  then have "hasOwn s ''caches''"
    by (cases s) (auto simp: getProp_def hasOwn_def split: option.splits)
  with xs assms show ?thesis by (auto simp: eligible_def isArray_def list_ex_iff)
qed

lemma used_iff:
  assumes "(k, path) \<in> set cacheMap"
  shows "setHas (usedBy [] steps) (JStr k) \<longleftrightarrow> list_ex (\<lambda>s. JStr k \<in> set (cachesOf s)) steps"
proof -
  have sup: "supported (JStr k)" using assms by (rule supported_key)
  show ?thesis
  proof
    assume "setHas (usedBy [] steps) (JStr k)"
    then show "list_ex (\<lambda>s. JStr k \<in> set (cachesOf s)) steps"
      by (auto simp: setHas_str set_usedBy cacheSet_def set_newSet list_ex_iff)
  next
    assume "list_ex (\<lambda>s. JStr k \<in> set (cachesOf s)) steps"
    then obtain s where s: "s \<in> set steps" "JStr k \<in> set (cachesOf s)" by (auto simp: list_ex_iff)
    then have "eligible s" using sup by (auto intro: requested_eligible)
    moreover have "JStr k \<in> set (cacheSet s)" using s sup by (simp add: cacheSet_def set_newSet)
    ultimately show "setHas (usedBy [] steps) (JStr k)"
      using s(1) by (auto simp: setHas_str set_usedBy)
  qed
qed

lemma createCacheVolumes_usedBy: "createCacheVolumes (usedBy [] steps) = tempVolumes steps"
  unfolding createCacheVolumes_def tempVolumes_def
  by (rule arg_cong[where f="map _"], rule filter_cong) (auto simp: used_iff)

lemma expand_plain: "\<not> list_ex eligible steps \<Longrightarrow> concat (map (expand p) steps) = steps"
  by (induction steps) (auto simp: expand_def)

lemma push_volumes:
  assumes "isObject ob" and "nullish (getProp ob ''volumes'') \<or> isArray (getProp ob ''volumes'')"
  shows "(case getProp (setProp ob ''volumes'' (coalesce (getProp ob ''volumes'') (JArr []))) ''volumes'' of
            JArr vs \<Rightarrow>
              Inr (setProp (setProp ob ''volumes'' (coalesce (getProp ob ''volumes'') (JArr [])))
                     ''volumes'' (JArr (vs @ X)))
          | _ \<Rightarrow> Inl E)
         = Inr (setProp ob ''volumes'' (JArr (elems (getProp ob ''volumes'') @ X)))"
proof -
  from assms(1) obtain fs where s: "ob = JObj fs" by (cases ob) (auto simp: isObject_def)
  show ?thesis
  proof (cases "nullish (getProp ob ''volumes'')")
    case True
    then have "elems (getProp ob ''volumes'') = []" by (auto simp: nullish_def elems_def)
    with True s show ?thesis
      by (simp add: coalesce_def setProp_def getProp_def map_of_putField putField_twice)
  next
    case False
    with assms(2) obtain vs where v: "getProp ob ''volumes'' = JArr vs"
      by (cases "getProp ob ''volumes''") (auto simp: isArray_def)
    with s have "map_of fs ''volumes'' = Some (JArr vs)"
      by (auto simp: getProp_def split: option.splits)
    with s v False show ?thesis
      by (simp add: coalesce_def setProp_def getProp_def putField_same elems_def)
  qed
qed

lemma docProcessor_pipeline:
  assumes "pipelineOk doc"
  shows "docProcessor p doc = Inr (rewritten p doc)"
proof -
  from assms have kind: "getProp doc ''kind'' = JStr ''pipeline''"
    and hs: "hasOwn doc ''steps''" and arr: "isArray (getProp doc ''steps'')"
    and nosh: "\<not> hasOwn doc ''hasOwnProperty''"
    and steps: "list_all stepOk (stepsOf doc)"
    and vol: "nullish (getProp doc ''volumes'') \<or> isArray (getProp doc ''volumes'')"
    by (simp_all add: pipelineOk_def)
  from kind obtain fs where d: "doc = JObj fs" by (cases doc) (auto simp: getProp_def)
  from arr obtain ss where ss: "getProp doc ''steps'' = JArr ss"
    by (cases "getProp doc ''steps''") (auto simp: isArray_def)
  then have so: "stepsOf doc = ss" by (simp add: stepsOf_def elems_def)
  from ss d have mo: "map_of fs ''steps'' = Some (JArr ss)"
    by (auto simp: getProp_def split: option.splits)
  have nn: "\<not> nullish doc" "\<not> nullish (getProp doc ''steps'')"
    using d ss by (simp_all add: nullish_def)
  have fm: "flatMapSteps p (elems (getProp doc ''steps'')) [] =
              Inr (concat (map (expand p) ss), usedBy [] ss)"
    using flatMapSteps_ok[of ss p "[]"] steps so ss by (simp add: elems_def)
  show ?thesis
  proof (cases "list_ex eligible ss")
    case False
    then have u: "usedBy [] ss = []" by (simp add: usedBy_Nil_iff)
    have "setProp doc ''steps'' (JArr ss) = doc" using d mo by (simp add: setProp_def putField_same)
    with False u show ?thesis
      unfolding docProcessor_def structuredClone_def Let_def doc_hasOwnProperty_def
      using nn kind hs arr nosh fm so by (simp add: rewritten_def expand_plain)
  next
    case True
    then have u: "usedBy [] ss \<noteq> []" by (simp add: usedBy_Nil_iff)
    let ?doc1 = "setProp doc ''steps'' (JArr (concat (map (expand p) ss)))"
    have g1: "getProp ?doc1 ''volumes'' = getProp doc ''volumes''"
      using d by (simp add: setProp_def getProp_def map_of_putField)
    have o1: "isObject ?doc1" using d by (simp add: setProp_def isObject_def)
    have v1: "nullish (getProp ?doc1 ''volumes'') \<or> isArray (getProp ?doc1 ''volumes'')"
      using vol g1 by simp
    note push = push_volumes[OF o1 v1, unfolded g1]
    show ?thesis
      unfolding docProcessor_def structuredClone_def doc_hasOwnProperty_def
      using nn kind hs arr nosh u True so
      by (simp add: fm g1 push Let_def rewritten_def createCacheVolumes_usedBy hostVolume_def)
  qed
qed

subsection \<open>Reading the rewritten document\<close>

lemma getProp_setProp_other:
  "isObject ob \<Longrightarrow> k' \<noteq> k \<Longrightarrow> getProp (setProp ob k v) k' = getProp ob k'"
  by (cases ob) (auto simp: isObject_def setProp_def getProp_def map_of_putField)

lemma getProp_setProp_same:
  "isObject ob \<Longrightarrow> getProp (setProp ob k v) k = v"
  by (cases ob) (auto simp: isObject_def setProp_def getProp_def map_of_putField)

lemma isObject_setProp: "isObject ob \<Longrightarrow> isObject (setProp ob k v)"
  by (cases ob) (auto simp: isObject_def setProp_def)

lemma pipelineOk_steps:
  assumes "pipelineOk doc"
  shows "isObject doc" and "getProp doc ''steps'' = JArr (stepsOf doc)"
proof -
  from assms have kind: "getProp doc ''kind'' = JStr ''pipeline''"
    and arr: "isArray (getProp doc ''steps'')" by (simp_all add: pipelineOk_def)
  from kind show "isObject doc" by (cases doc) (auto simp: getProp_def isObject_def)
  from arr show "getProp doc ''steps'' = JArr (stepsOf doc)"
    by (cases "getProp doc ''steps''") (auto simp: isArray_def stepsOf_def elems_def)
qed

lemma rewritten_steps:
  assumes "pipelineOk doc"
  shows "getProp (rewritten p doc) ''steps'' = JArr (concat (map (expand p) (stepsOf doc)))"
proof (cases "list_ex eligible (stepsOf doc)")
  case True
  then show ?thesis
    using pipelineOk_steps(1)[OF assms]
    by (simp add: rewritten_def getProp_setProp_other getProp_setProp_same isObject_setProp)
next
  case False
  then show ?thesis
    using pipelineOk_steps(2)[OF assms] by (simp add: rewritten_def expand_plain)
qed


lemma rewritten_segment:
  assumes "pipelineOk doc" and "step \<in> set (stepsOf doc)" and "eligible step"
  shows "\<exists>pre post. stepsOf (rewritten p doc) =
           pre @ [wrapper p step (nameOf step) ''restore'', withMounts step,
                  wrapper p step (nameOf step) ''rebuild''] @ post"
proof -
  from assms(2) obtain xs ys where sp: "stepsOf doc = xs @ step # ys" by (auto dest: split_list)
  have "stepsOf (rewritten p doc) = concat (map (expand p) (stepsOf doc))"
    using rewritten_steps[OF assms(1), of p] by (simp add: stepsOf_def elems_def)
  also have "\<dots> = concat (map (expand p) xs) @ expand p step @ concat (map (expand p) ys)"
    by (simp add: sp)
  finally show ?thesis using assms(3) by (auto simp: expand_def)
qed

subsection \<open>The volumes of a document\<close>

lemma distinct_cacheMap_keys: "distinct (map fst cacheMap)"
  by (simp add: cacheMap_def)

lemma distinct_cacheMap_paths: "distinct (map snd cacheMap)"
  by (simp add: cacheMap_def)

lemma cache_not_key: "(''cache'', path) \<notin> set cacheMap"
  by (simp add: cacheMap_def)





lemma rewritten_volumes:
  assumes "pipelineOk doc" and "list_ex eligible (stepsOf doc)"
  shows "getProp (rewritten p doc) ''volumes'' =
           JArr (elems (getProp doc ''volumes'') @ hostVolume p # tempVolumes (stepsOf doc))"
  using assms(2) pipelineOk_steps(1)[OF assms(1)]
  by (simp add: rewritten_def getProp_setProp_same isObject_setProp)

subsection \<open>The cache environment\<close>

lemma renamed_eq: "matchCACHE k \<Longrightarrow> renamed (k, v) = (replaceCACHE k, v)"
  by (simp add: renamed_def replaceCACHE_def matchCACHE_def)

lemma replaceCACHE_inj:
  assumes "matchCACHE k" "matchCACHE k'" "replaceCACHE k = replaceCACHE k'"
  shows "k = k'"
proof -
  have t: "take 6 k = take 6 k'" using assms(1,2) unfolding matchCACHE_def by (rule trans[OF _ sym])
  have "''PLUGIN_'' @ drop 6 k = ''PLUGIN_'' @ drop 6 k'"
    using assms unfolding matchCACHE_def replaceCACHE_def by presburger
  then have d: "drop 6 k = drop 6 k'" by (rule same_append_eq[THEN iffD1])
  have "take 6 k @ drop 6 k = take 6 k' @ drop 6 k'" using t d by (rule arg_cong2)
  then show ?thesis by (simp only: append_take_drop_id)
qed


lemma foldl_putField:
  "distinct (map fst fl) \<Longrightarrow> \<forall>k\<in>fst ` set fl. matchCACHE k \<Longrightarrow>
   fst ` set acc \<inter> replaceCACHE ` fst ` set fl = {} \<Longrightarrow>
   foldl (\<lambda>res (key, val). putField res (replaceCACHE key) val) acc fl = acc @ map renamed fl"
proof (induction fl arbitrary: acc)
  case Nil
  then show ?case by simp
next
  case (Cons a fl)
  obtain k v where a: "a = (k, v)" by (cases a)
  have m: "matchCACHE k" using Cons.prems(2) a by simp
  have fresh: "replaceCACHE k \<notin> fst ` set acc"
    using Cons.prems(3) a by auto
  have notin: "k \<notin> fst ` set fl" using Cons.prems(1) a by simp
  have inj: "replaceCACHE k \<notin> replaceCACHE ` fst ` set fl"
  proof
    assume "replaceCACHE k \<in> replaceCACHE ` fst ` set fl"
    then obtain k' where k': "k' \<in> fst ` set fl" "replaceCACHE k = replaceCACHE k'" by blast
    then have "matchCACHE k'" using Cons.prems(2) by auto
    from replaceCACHE_inj[OF m this k'(2)] k'(1) notin show False by simp
  qed
  have disj: "fst ` set (acc @ [(replaceCACHE k, v)]) \<inter> replaceCACHE ` fst ` set fl = {}"
    using Cons.prems(3) inj by auto
  have d: "distinct (map fst fl)" using Cons.prems(1) by simp
  have ms: "\<forall>k\<in>fst ` set fl. matchCACHE k" using Cons.prems(2) by simp
  have "foldl (\<lambda>res (key, val). putField res (replaceCACHE key) val) acc (a # fl)
        = foldl (\<lambda>res (key, val). putField res (replaceCACHE key) val) (acc @ [(replaceCACHE k, v)]) fl"
    using fresh a by (simp add: putField_fresh)
  also have "\<dots> = (acc @ [(replaceCACHE k, v)]) @ map renamed fl"
    by (rule Cons.IH[OF d ms disj])
  finally show ?case using a renamed_eq[OF m, of v] by simp
qed


lemma getCacheEnv_eq:
  assumes "distinct (map fst env)"
  shows "getCacheEnv env = map renamed (filter (\<lambda>(key, val). matchCACHE key) env)"
proof -
  let ?fl = "filter (\<lambda>(key, val). matchCACHE key) env"
  have d: "distinct (map fst ?fl)"
    using assms by (rule distinct_map_filter)
  have m: "\<forall>k\<in>fst ` set ?fl. matchCACHE k" by auto
  have e: "fst ` set ([] :: (string \<times> jsval) list) \<inter> replaceCACHE ` fst ` set ?fl = {}" by simp
  have "foldl (\<lambda>res (key, val). putField res (replaceCACHE key) val) [] ?fl = [] @ map renamed ?fl"
    by (rule foldl_putField[OF d m e])
  then show ?thesis unfolding getCacheEnv_def by simp
qed

subsection \<open>The generated steps\<close>

lemma wrapper_mount:
  "getProp (getProp (wrapper p s n a) ''settings'') ''mount'' = JArr (map JStr (mountPaths s))"
  by (simp add: wrapper_def getProp_def)

lemma wrapper_environment:
  "getProp (wrapper p s n a) ''environment'' = JObj (cacheEnv p)"
  by (simp add: wrapper_def getProp_def)

lemma stepOk_name: "stepOk step \<Longrightarrow> toStr (getProp step ''name'') = Inr (nameOf step)"
  by (auto simp: stepOk_def nameOf_def split: sum.splits)

lemma distinct_mountPaths: "distinct (mountPaths step)"
  unfolding mountPaths_def by (rule distinct_map_filter[OF distinct_cacheMap_paths])

lemma subseq_mountPaths: "subseq (mountPaths step) (map snd cacheMap)"
  unfolding mountPaths_def by (simp add: subseq_map)

lemma set_mountPaths:
  "set (mountPaths step) = {path. \<exists>k. JStr k \<in> set (cacheSet step) \<and> map_of cacheMap k = Some path}"
proof -
  have m: "\<And>k path. (k, path) \<in> set cacheMap \<longleftrightarrow> map_of cacheMap k = Some path"
    using distinct_cacheMap_keys by (auto intro: map_of_is_SomeI dest: map_of_SomeD)
  have s: "\<And>k path. (k, path) \<in> set cacheMap \<Longrightarrow> JStr k \<in> set (cacheSet step) \<longleftrightarrow> JStr k \<in> set (cachesOf step)"
    by (simp add: cacheSet_def set_newSet supported_key)
  show ?thesis
  proof (intro set_eqI iffI)
    fix path assume "path \<in> set (mountPaths step)"
    then obtain k where k: "(k, path) \<in> set cacheMap" "JStr k \<in> set (cachesOf step)"
      by (auto simp: mountPaths_def)
    with s[OF k(1)] m[of k path] show "path \<in> {path. \<exists>k. JStr k \<in> set (cacheSet step) \<and> map_of cacheMap k = Some path}"
      by blast
  next
    fix path assume "path \<in> {path. \<exists>k. JStr k \<in> set (cacheSet step) \<and> map_of cacheMap k = Some path}"
    then obtain k where k: "JStr k \<in> set (cacheSet step)" "map_of cacheMap k = Some path" by blast
    then have in_map: "(k, path) \<in> set cacheMap" using m by simp
    with k(1) s[OF in_map] have "JStr k \<in> set (cachesOf step)" by simp
    with in_map show "path \<in> set (mountPaths step)" by (force simp: mountPaths_def)
  qed
qed

subsection \<open>Steps and documents without a cache request\<close>

lemma uncached_callback:
  assumes "uncached step"
  shows "stepCallback p step used = Inr (step, used)" and "flatten1 step = [step]"
proof -
  from assms have nn: "\<not> nullish step" and na: "\<not> isArray step"
    and c: "\<not> hasOwn step ''caches'' \<or> \<not> isArray (getProp step ''caches'')
            \<or> list_all unsupported (cachesOf step)"
    by (simp_all add: uncached_def)
  from nn c show "stepCallback p step used = Inr (step, used)" by (rule stepCallback_plain)
  from na show "flatten1 step = [step]" by (cases step) (simp_all add: flatten1_def isArray_def)
qed

lemma flatMapSteps_uncached:
  "list_all uncached steps \<Longrightarrow> flatMapSteps p steps used = Inr (steps, used)"
  by (induction steps) (simp_all add: uncached_callback)

lemma docProcessor_plain:
  assumes "plainDoc doc"
  shows "docProcessor p doc = Inr doc"
proof -
  from assms have nn: "\<not> nullish doc" by (simp add: plainDoc_def)
  show ?thesis
  proof (cases "getProp doc ''kind'' \<noteq> JStr ''pipeline'' \<or> \<not> hasOwn doc ''steps''")
    case True
    with assms nn show ?thesis
      by (auto simp: plainDoc_def docProcessor_def structuredClone_def doc_hasOwnProperty_def)
  next
    case False
    with assms have kind: "getProp doc ''kind'' = JStr ''pipeline''" and hs: "hasOwn doc ''steps''"
      and nosh: "\<not> hasOwn doc ''hasOwnProperty''"
      and arr: "isArray (getProp doc ''steps'')" and un: "list_all uncached (stepsOf doc)"
      by (auto simp: plainDoc_def)
    from kind obtain fs where d: "doc = JObj fs" by (cases doc) (auto simp: getProp_def)
    from arr have ss: "getProp doc ''steps'' = JArr (stepsOf doc)"
      by (cases "getProp doc ''steps''") (auto simp: isArray_def stepsOf_def elems_def)
    with d have mo: "map_of fs ''steps'' = Some (JArr (stepsOf doc))"
      by (auto simp: getProp_def split: option.splits)
    have same: "setProp doc ''steps'' (JArr (stepsOf doc)) = doc"
      using d mo by (simp add: setProp_def putField_same)
    have n2: "\<not> nullish (getProp doc ''steps'')" using ss by (simp add: nullish_def)
    have fm: "flatMapSteps p (elems (getProp doc ''steps'')) [] = Inr (stepsOf doc, [])"
      using flatMapSteps_uncached[OF un, of p "[]"] by (simp add: stepsOf_def)
    show ?thesis
      unfolding docProcessor_def structuredClone_def doc_hasOwnProperty_def Let_def
      using nn kind hs nosh arr n2 by (simp add: fm same)
  qed
qed

lemma processAll_plain: "list_all plainDoc docs \<Longrightarrow> processAll p docs = Inr docs"
  by (induction docs) (simp_all add: docProcessor_plain)

subsection \<open>Kinds with a relative path\<close>

lemma key_unique: "(k, p1) \<in> set cacheMap \<Longrightarrow> (k, p2) \<in> set cacheMap \<Longrightarrow> p1 = p2"
  using distinct_cacheMap_keys by (rule eq_key_imp_eq_value)

lemma createCacheVolumes_name:
  assumes "(k, path) \<in> set cacheMap" and "\<not> rooted path" and "v \<in> set (createCacheVolumes caches)"
  shows "getProp v ''name'' \<noteq> JStr k"
proof
  assume n: "getProp v ''name'' = JStr k"
  from assms(3) obtain k' path' where v: "(k', path') \<in> set cacheMap" "rooted path'"
      "v = JObj [(''name'', JStr k'), (''temp'', JObj [])]"
    by (auto simp: createCacheVolumes_def)
  with n have "k' = k" by (simp add: getProp_def)
  with v(1) assms(1) have "path' = path" by (auto dest: key_unique)
  with v(2) assms(2) show False by simp
qed

lemma createCacheMounts_name:
  assumes "(k, path) \<in> set cacheMap" and "\<not> rooted path" and "v \<in> set (createCacheMounts caches)"
  shows "getProp v ''name'' \<noteq> JStr k"
proof
  assume n: "getProp v ''name'' = JStr k"
  from assms(3) obtain k' path' where v: "(k', path') \<in> set cacheMap" "rooted path'"
      "v = JObj [(''name'', JStr k'), (''path'', JStr path')]"
    by (auto simp: createCacheMounts_def)
  with n have "k' = k" by (simp add: getProp_def)
  with v(1) assms(1) have "path' = path" by (auto dest: key_unique)
  with v(2) assms(2) show False by simp
qed

lemma mountsOf_name:
  assumes "(k, path) \<in> set cacheMap" and "\<not> rooted path" and "v \<in> set (mountsOf s)"
  shows "getProp v ''name'' \<noteq> JStr k"
  using createCacheMounts_name[OF assms(1,2), of v "cacheSet s"] assms(3)
  by (simp add: createCacheMounts_cacheSet)

lemma tempVolumes_name:
  assumes "(k, path) \<in> set cacheMap" and "\<not> rooted path" and "v \<in> set (tempVolumes steps)"
  shows "getProp v ''name'' \<noteq> JStr k"
  using createCacheVolumes_name[OF assms(1,2), of v "usedBy [] steps"] assms(3)
  by (simp add: createCacheVolumes_usedBy)

lemma cache_name:
  assumes "(k, path) \<in> set cacheMap"
  shows "k \<noteq> ''cache''"
  using assms cache_not_key by auto

lemma expand_volumes:
  assumes k: "(k, path) \<in> set cacheMap" "\<not> rooted path"
    and ok: "stepOk s" and st: "st \<in> set (expand p s)"
    and v: "v \<in> set (elems (getProp st ''volumes''))" and n: "getProp v ''name'' = JStr k"
  shows "v \<in> set (elems (getProp s ''volumes''))"
proof (cases "eligible s")
  case False
  with st v show ?thesis by (simp add: expand_def)
next
  case True
  from ok have obj: "isObject s" by (simp add: stepOk_def)
  have nm: "v \<notin> set (mountsOf s)" using mountsOf_name[OF k] n by blast
  have nc: "v \<noteq> JObj [(''name'', JStr ''cache''), (''path'', x)]" for x
    using n cache_name[OF k(1)] by (auto simp: getProp_def)
  from True st consider "st = wrapper p s (nameOf s) ''restore''" | "st = withMounts s"
    | "st = wrapper p s (nameOf s) ''rebuild''"
    by (auto simp: expand_def)
  then show ?thesis
  proof cases
    case 1
    with v nm nc show ?thesis by (auto simp: wrapper_def getProp_def elems_def)
  next
    case 2
    with v obj have "v \<in> set (elems (getProp s ''volumes'') @ mountsOf s)"
      by (simp add: withMounts_def getProp_setProp_same elems_def)
    with nm show ?thesis by simp
  next
    case 3
    with v nm nc show ?thesis by (auto simp: wrapper_def getProp_def elems_def)
  qed
qed

subsection \<open>Steps without a cache request, on the store\<close>

lemma filterE_none: "list_all (\<lambda>x. f x = Inr False) xs \<Longrightarrow> filterE f xs = Inr []"
  by (induction xs) simp_all

lemma uncachedH_callback:
  assumes "uncachedH h step"
  shows "stepCallbackH p h step used = Inr (h, step, used)"
proof -
  from assms have nn: "\<not> hNullish step"
    and c: "\<not> hHasOwn h step ''caches'' \<or> \<not> hIsArray h (hGetProp h step ''caches'')
            \<or> list_all (unsupportedH h) (hElems h (hGetProp h step ''caches''))"
    by (simp_all add: uncachedH_def)
  show ?thesis
  proof (cases "\<not> hHasOwn h step ''caches'' \<or> \<not> hIsArray h (hGetProp h step ''caches'')")
    case True
    with nn show ?thesis by (auto simp: stepCallbackH_def)
  next
    case False
    with c have "list_all (\<lambda>e. cacheMap_hasOwnPropertyH h e = Inr False) (hElems h (hGetProp h step ''caches''))"
      by (simp add: unsupportedH_def[abs_def])
    then have "filterE (cacheMap_hasOwnPropertyH h) (hElems h (hGetProp h step ''caches'')) = Inr []"
      by (rule filterE_none)
    with nn False show ?thesis by (simp add: stepCallbackH_def hNewSet_def)
  qed
qed

lemma flatMapStepsH_uncached_Cons:
  assumes "uncachedH h step"
  shows "flatMapStepsH p h (step # rest) used =
           (case flatMapStepsH p h rest used of
              Inl e \<Rightarrow> Inl e
            | Inr (h', rs, u) \<Rightarrow> Inr (h', step # rs, u))"
proof -
  from assms have "\<not> hIsArray h step" by (simp add: uncachedH_def)
  then show ?thesis
    by (simp add: uncachedH_callback[OF assms] split: sum.splits prod.splits)
qed

lemma flatMapStepsH_uncached:
  "list_all (uncachedH h) steps \<Longrightarrow> flatMapStepsH p h steps used = Inr (h, steps, used)"
  by (induction steps) (simp_all add: flatMapStepsH_uncached_Cons del: flatMapStepsH.simps(2))

lemma docProcessorH_uncached:
  assumes k: "hGetProp h d ''kind'' = HStr ''pipeline''"
    and nh: "\<not> hHasOwn h d ''hasOwnProperty''"
    and s: "cell h (hGetProp h d ''steps'') = Some (HArr steps)"
    and u: "list_all (uncachedH h) steps"
  shows "docProcessorH p h d =
           Inr (hSetProp (h @ [HArr steps]) d ''steps'' (HRef (length h)), d)"
proof -
  from k have nn: "\<not> hNullish d" by (auto simp: hNullish_def hGetProp_def cell_def)
  from s have ho: "hHasOwn h d ''steps''"
    by (auto simp: hHasOwn_def hGetProp_def cell_def split: option.splits hobj.splits hval.splits if_splits)
  from s have n2: "\<not> hNullish (hGetProp h d ''steps'')" by (auto simp: hNullish_def cell_def)
  from s have ia: "hIsArray h (hGetProp h d ''steps'')" and el: "hElems h (hGetProp h d ''steps'') = steps"
    by (simp_all add: hIsArray_def hElems_def)
  show ?thesis
    unfolding docProcessorH_def
    using nn k nh ho n2 ia by (simp add: el flatMapStepsH_uncached[OF u] hAlloc_def)
qed

lemma unregistered_unsupportedH: "map_of cacheMap k = None \<Longrightarrow> unsupportedH h (HStr k)"
  by (simp add: unsupportedH_def cacheMap_hasOwnPropertyH_def)

text \<open>Documents that are handed on, and the null document, on the store.\<close>

lemma docProcessorH_null: "hNullish d \<Longrightarrow> docProcessorH p h d = Inl (TypeError (ReadOfNullish ''kind''))"
  by (simp add: docProcessorH_def)

lemma docProcessorH_other_kind:
  "\<not> hNullish d \<Longrightarrow> hGetProp h d ''kind'' \<noteq> HStr ''pipeline'' \<Longrightarrow> docProcessorH p h d = Inr (h, d)"
  by (simp add: docProcessorH_def)

lemma docProcessorH_no_steps:
  "\<not> hNullish d \<Longrightarrow> \<not> hHasOwn h d ''hasOwnProperty'' \<Longrightarrow> \<not> hHasOwn h d ''steps'' \<Longrightarrow>
   docProcessorH p h d = Inr (h, d)"
  by (simp add: docProcessorH_def)

lemma docProcessorH_hasOwnProperty:
  "hGetProp h d ''kind'' = HStr ''pipeline'' \<Longrightarrow> hHasOwn h d ''hasOwnProperty'' \<Longrightarrow>
   docProcessorH p h d = Inl (TypeError (NotAFunction ''doc.hasOwnProperty''))"
  by (auto simp: docProcessorH_def hNullish_def hGetProp_def cell_def)

subsection \<open>Reading the store\<close>

lemma cell_Some_iff: "cell h v = Some ob \<longleftrightarrow> (\<exists>a. v = HRef a \<and> a < length h \<and> h ! a = ob)"
  by (cases v) (auto simp: cell_def)

lemma lay_bound:
  "lay h v t = Some cs \<Longrightarrow> \<forall>a\<in>set cs. a < length h"
  "layList h vs ts = Some cs \<Longrightarrow> \<forall>a\<in>set cs. a < length h"
  "layFields h fs gs = Some cs \<Longrightarrow> \<forall>a\<in>set cs. a < length h"
  by (induction h v t and h vs ts and h fs gs arbitrary: cs and cs and cs rule: lay_layList_layFields.induct)
     (auto simp: cell_Some_iff split: if_splits hval.splits option.splits hobj.splits list.splits)

lemma lay_frame:
  "lay h v t = Some cs \<Longrightarrow> length h \<le> length h' \<Longrightarrow> \<forall>a\<in>set cs. h' ! a = h ! a \<Longrightarrow> lay h' v t = Some cs"
  "layList h vs ts = Some cs \<Longrightarrow> length h \<le> length h' \<Longrightarrow> \<forall>a\<in>set cs. h' ! a = h ! a \<Longrightarrow> layList h' vs ts = Some cs"
  "layFields h fs gs = Some cs \<Longrightarrow> length h \<le> length h' \<Longrightarrow> \<forall>a\<in>set cs. h' ! a = h ! a \<Longrightarrow> layFields h' fs gs = Some cs"
  by (induction h v t and h vs ts and h fs gs arbitrary: cs and cs and cs rule: lay_layList_layFields.induct)
     (auto simp: cell_Some_iff split: if_splits hval.splits option.splits hobj.splits list.splits)

lemma layFields_keys: "layFields h fs gs = Some cs \<Longrightarrow> map fst fs = map fst gs"
proof (induction fs arbitrary: gs cs)
  case Nil
  then show ?case by (cases gs) auto
next
  case (Cons f fs)
  then show ?case by (cases gs; cases f) (auto split: if_splits option.splits)
qed

lemma layFields_map_of_None: "layFields h fs gs = Some cs \<Longrightarrow> map_of fs k = None \<longleftrightarrow> map_of gs k = None"
  using layFields_keys[of h fs gs cs] by (simp add: map_of_eq_None_iff) (metis list.set_map)

lemma layList_length: "layList h vs ts = Some cs \<Longrightarrow> length vs = length ts"
proof (induction vs arbitrary: ts cs)
  case Nil
  then show ?case by (cases ts) auto
next
  case (Cons v vs)
  then show ?case by (cases ts) (auto split: if_splits option.splits)
qed

lemma lay_toStr:
  "lay h v t = Some cs \<Longrightarrow> distinct cs \<Longrightarrow> set seen \<inter> set cs = {} \<Longrightarrow> toStrH seen h v = toStr t"
  "layList h vs ts = Some cs \<Longrightarrow> distinct cs \<Longrightarrow> set seen \<inter> set cs = {} \<Longrightarrow> joinStrH seen h vs = joinStr ts"
  "layFields h fs gs = Some cs \<Longrightarrow> map_of fs k = None \<longleftrightarrow> map_of gs k = None"
proof (induction h v t and h vs ts and h fs gs arbitrary: cs seen and cs seen and cs rule: lay_layList_layFields.induct)
  case (6 h a ts)
  then show ?case by (auto simp: cell_def split: option.splits hobj.splits if_splits)
next
  case (7 h a gs)
  from "7.prems"(1) obtain fs c where c: "cell h (HRef a) = Some (HObj fs)" and l: "layFields h fs gs = Some c"
    by (auto split: option.splits hobj.splits)
  from layFields_map_of_None[OF l, of "''toString''"]
  have "(map_of fs ''toString'' \<noteq> None) = (map_of gs ''toString'' \<noteq> None)" by simp
  then show ?case using c by simp
next
  case (10 h v vs t ts)
  from "10.prems"(1) obtain c1 c2 where l1: "lay h v t = Some c1" and l2: "layList h vs ts = Some c2"
    and cs: "cs = c1 @ c2"
    by (auto split: option.splits)
  from "10.prems" cs have d1: "distinct c1" "set seen \<inter> set c1 = {}" and d2: "distinct c2" "set seen \<inter> set c2 = {}"
    by auto
  have a: "toStrH seen h v = toStr t" using "10.IH"(1)[OF l1 d1] .
  have b: "joinStrH seen h vs = joinStr ts" using "10.IH"(2)[OF l1 l2 d2] .
  have n: "(v = HNull \<or> v = HUndefined) = (t = JNull \<or> t = JUndefined)"
    using l1 by (cases v; cases t) (auto split: if_splits)
  have e: "(vs = []) = (ts = [])" using layList_length[OF l2] by auto
  show ?case by (simp only: joinStrH.simps joinStr.simps a b n e)
qed (auto simp: layFields_map_of_None split: if_splits option.splits)

lemma hStore_lay:
  "hStore h t = (h', v) \<Longrightarrow> (\<exists>hs. h' = h @ hs) \<and> (\<exists>cs. lay h' v t = Some cs \<and> distinct cs \<and> (\<forall>a\<in>set cs. length h \<le> a))"
  "hStoreList h ts = (h', vs) \<Longrightarrow> (\<exists>hs. h' = h @ hs) \<and> (\<exists>cs. layList h' vs ts = Some cs \<and> distinct cs \<and> (\<forall>a\<in>set cs. length h \<le> a))"
  "hStoreFields h gs = (h', fs) \<Longrightarrow> (\<exists>hs. h' = h @ hs) \<and> (\<exists>cs. layFields h' fs gs = Some cs \<and> distinct cs \<and> (\<forall>a\<in>set cs. length h \<le> a))"
proof (induction h t and h ts and h gs arbitrary: h' v and h' vs and h' fs rule: hStore_hStoreList_hStoreFields.induct)
  case (6 h xs)
  obtain h1 vs where s: "hStoreList h xs = (h1, vs)" by (cases "hStoreList h xs")
  from "6.IH"[OF s] obtain hs cs where h1: "h1 = h @ hs" and l: "layList h1 vs xs = Some cs"
    and d: "distinct cs" and b: "\<forall>a\<in>set cs. length h \<le> a" by blast
  from "6.prems" s have h': "h' = h1 @ [HArr vs]" and v: "v = HRef (length h1)" by (simp_all add: hAlloc_def)
  have l': "layList h' vs xs = Some cs"
    using lay_frame(2)[OF l, of h'] lay_bound(2)[OF l] by (simp add: h' nth_append)
  from lay_bound(2)[OF l] have nin: "length h1 \<notin> set cs" by auto
  show ?case using l' d b nin h1 by (auto simp: h' v cell_def)
next
  case (7 h xs)
  obtain h1 fs where s: "hStoreFields h xs = (h1, fs)" by (cases "hStoreFields h xs")
  from "7.IH"[OF s] obtain hs cs where h1: "h1 = h @ hs" and l: "layFields h1 fs xs = Some cs"
    and d: "distinct cs" and b: "\<forall>a\<in>set cs. length h \<le> a" by blast
  from "7.prems" s have h': "h' = h1 @ [HObj fs]" and v: "v = HRef (length h1)" by (simp_all add: hAlloc_def)
  have l': "layFields h' fs xs = Some cs"
    using lay_frame(3)[OF l, of h'] lay_bound(3)[OF l] by (simp add: h' nth_append)
  from lay_bound(3)[OF l] have nin: "length h1 \<notin> set cs" by auto
  show ?case using l' d b nin h1 by (auto simp: h' v cell_def)
next
  case (9 h x xs)
  obtain h1 v1 where s1: "hStore h x = (h1, v1)" by (cases "hStore h x")
  obtain h2 vs2 where s2: "hStoreList h1 xs = (h2, vs2)" by (cases "hStoreList h1 xs")
  from "9.IH"(1)[OF s1] obtain hs1 c1 where h1: "h1 = h @ hs1" and l1: "lay h1 v1 x = Some c1"
    and d1: "distinct c1" and b1: "\<forall>a\<in>set c1. length h \<le> a" by blast
  from "9.IH"(2)[OF s1[symmetric] s2] obtain hs2 c2 where h2: "h2 = h1 @ hs2" and l2: "layList h2 vs2 xs = Some c2"
    and d2: "distinct c2" and b2: "\<forall>a\<in>set c2. length h1 \<le> a" by blast
  from "9.prems" s1 s2 have e: "h' = h2" "vs = v1 # vs2" by simp_all
  have l1': "lay h2 v1 x = Some c1"
    using lay_frame(1)[OF l1, of h2] lay_bound(1)[OF l1] by (simp add: h2 nth_append)
  have dj: "set c1 \<inter> set c2 = {}" using lay_bound(1)[OF l1] b2 by fastforce
  show ?case using l1' l2 d1 d2 dj b1 b2 h1 h2 by (auto simp: e)
next
  case (11 h k x gs)
  obtain h1 v1 where s1: "hStore h x = (h1, v1)" by (cases "hStore h x")
  obtain h2 fs2 where s2: "hStoreFields h1 gs = (h2, fs2)" by (cases "hStoreFields h1 gs")
  from "11.IH"(1)[OF s1] obtain hs1 c1 where h1: "h1 = h @ hs1" and l1: "lay h1 v1 x = Some c1"
    and d1: "distinct c1" and b1: "\<forall>a\<in>set c1. length h \<le> a" by blast
  from "11.IH"(2)[OF s1[symmetric] s2] obtain hs2 c2 where h2: "h2 = h1 @ hs2" and l2: "layFields h2 fs2 gs = Some c2"
    and d2: "distinct c2" and b2: "\<forall>a\<in>set c2. length h1 \<le> a" by blast
  from "11.prems" s1 s2 have e: "h' = h2" "fs = (k, v1) # fs2" by simp_all
  have l1': "lay h2 v1 x = Some c1"
    using lay_frame(1)[OF l1, of h2] lay_bound(1)[OF l1] by (simp add: h2 nth_append)
  have dj: "set c1 \<inter> set c2 = {}" using lay_bound(1)[OF l1] b2 by fastforce
  show ?case using l1' l2 d1 d2 dj b1 b2 h1 h2 by (auto simp: e)
qed auto
lemma lay_JArr:
  "lay h v (JArr ts) = Some cs \<Longrightarrow>
   \<exists>a vs c. v = HRef a \<and> a < length h \<and> h ! a = HArr vs \<and> layList h vs ts = Some c \<and> cs = a # c"
  by (cases v) (auto simp: cell_def split: if_splits option.splits hobj.splits)

lemma lay_JObj:
  "lay h v (JObj gs) = Some cs \<Longrightarrow>
   \<exists>a fs c. v = HRef a \<and> a < length h \<and> h ! a = HObj fs \<and> layFields h fs gs = Some c \<and> cs = a # c"
  by (cases v) (auto simp: cell_def split: if_splits option.splits hobj.splits)

lemma lay_JArr_intro:
  "a < length h \<Longrightarrow> h ! a = HArr vs \<Longrightarrow> layList h vs ts = Some c \<Longrightarrow> lay h (HRef a) (JArr ts) = Some (a # c)"
  by (simp add: cell_def)

lemma lay_JObj_intro:
  "a < length h \<Longrightarrow> h ! a = HObj fs \<Longrightarrow> layFields h fs gs = Some c \<Longrightarrow> lay h (HRef a) (JObj gs) = Some (a # c)"
  by (simp add: cell_def)

lemma lay_nullish: "lay h v t = Some cs \<Longrightarrow> hNullish v = nullish t"
  by (cases v; cases t) (auto simp: hNullish_def nullish_def split: if_splits)

lemma lay_isArray: "lay h v t = Some cs \<Longrightarrow> hIsArray h v = isArray t"
  by (cases v; cases t)
     (auto simp: hIsArray_def isArray_def cell_def split: if_splits option.splits hobj.splits)

lemma lay_hasOwn: "lay h v t = Some cs \<Longrightarrow> hHasOwn h v k = hasOwn t k"
proof (cases t)
  case (JObj gs)
  assume l: "lay h v t = Some cs"
  from lay_JObj[OF l[unfolded JObj]] obtain a fs c where v: "v = HRef a" "a < length h" "h ! a = HObj fs"
    and lf: "layFields h fs gs = Some c" by blast
  from layFields_map_of_None[OF lf, of k] show ?thesis
    by (simp add: JObj v hHasOwn_def hasOwn_def cell_def)
next
  case (JArr ts)
  assume l: "lay h v t = Some cs"
  from lay_JArr[OF l[unfolded JArr]] show ?thesis
    by (auto simp: JArr hHasOwn_def hasOwn_def cell_def)
qed (cases v; auto simp: hHasOwn_def hasOwn_def cell_def split: if_splits)+

lemma layFields_field:
  "layFields h fs gs = Some cs \<Longrightarrow>
   \<exists>c. lay h (fieldH fs k) (fieldT gs k) = Some c \<and> set c \<subseteq> set cs \<and> (distinct cs \<longrightarrow> distinct c)"
proof (induction fs arbitrary: gs cs)
  case Nil
  then show ?case by (cases gs) (auto simp: fieldH_def fieldT_def)
next
  case (Cons f fs)
  obtain k1 v1 where f: "f = (k1, v1)" by (cases f)
  from Cons.prems f obtain t1 gs' where gs: "gs = (k1, t1) # gs'"
    by (cases gs) (auto split: if_splits)
  from Cons.prems f gs obtain c1 c2 where l1: "lay h v1 t1 = Some c1" and l2: "layFields h fs gs' = Some c2"
    and cs: "cs = c1 @ c2"
    by (auto split: option.splits)
  show ?case
  proof (cases "k1 = k")
    case True
    then show ?thesis using l1 cs by (auto simp: f gs fieldH_def fieldT_def)
  next
    case False
    from Cons.IH[OF l2] obtain c where "lay h (fieldH fs k) (fieldT gs' k) = Some c" "set c \<subseteq> set c2"
      "distinct c2 \<longrightarrow> distinct c" by blast
    then show ?thesis using False cs by (auto simp: f gs fieldH_def fieldT_def)
  qed
qed

lemma hGetProp_obj: "a < length h \<Longrightarrow> h ! a = HObj fs \<Longrightarrow> hGetProp h (HRef a) k = fieldH fs k"
  by (simp add: hGetProp_def cell_def fieldH_def)

lemma getProp_obj: "getProp (JObj gs) k = fieldT gs k"
  by (simp add: getProp_def fieldT_def)

lemma lay_getProp:
  assumes "lay h v t = Some cs"
  shows "\<exists>c. lay h (hGetProp h v k) (getProp t k) = Some c \<and> set c \<subseteq> set cs \<and> (distinct cs \<longrightarrow> distinct c)"
proof (cases t)
  case (JObj gs)
  from lay_JObj[OF assms[unfolded JObj]] obtain a fs c where v: "v = HRef a" "a < length h" "h ! a = HObj fs"
    and lf: "layFields h fs gs = Some c" and cs: "cs = a # c" by blast
  from layFields_field[OF lf, of k] show ?thesis
    using v cs by (auto simp: JObj hGetProp_obj getProp_obj)
next
  case (JArr ts)
  from lay_JArr[OF assms[unfolded JArr]] show ?thesis
    by (auto simp: JArr hGetProp_def getProp_def cell_def)
qed (use assms in \<open>cases v; auto simp: hGetProp_def getProp_def cell_def split: if_splits\<close>)+

lemma lay_elems:
  assumes "lay h v t = Some cs" and "isArray t"
  shows "\<exists>a c. v = HRef a \<and> a < length h \<and> h ! a = HArr (hElems h v) \<and>
           layList h (hElems h v) (elems t) = Some c \<and> cs = a # c"
proof -
  from assms(2) obtain ts where t: "t = JArr ts" by (cases t) (auto simp: isArray_def)
  from lay_JArr[OF assms(1)[unfolded t]] show ?thesis
    by (auto simp: t hElems_def elems_def cell_def)
qed

lemma layList_append:
  "layList h vs ts = Some c \<Longrightarrow> layList h xs xts = Some cx \<Longrightarrow>
   layList h (vs @ xs) (ts @ xts) = Some (c @ cx)"
proof (induction vs arbitrary: ts c)
  case Nil
  then show ?case by (cases ts) auto
next
  case (Cons v vs)
  then show ?case by (cases ts) (auto split: option.splits)
qed

lemma layFields_split:
  "layFields h fs gs = Some cs \<Longrightarrow>
   \<exists>c1 c2. layFields h (delFirst k fs) (delFirst k gs) = Some c1 \<and>
           lay h (fieldH fs k) (fieldT gs k) = Some c2 \<and>
           set cs = set c1 \<union> set c2 \<and>
           (distinct cs \<longrightarrow> distinct c1 \<and> distinct c2 \<and> set c1 \<inter> set c2 = {})"
proof (induction fs arbitrary: gs cs)
  case Nil
  then show ?case by (cases gs) (auto simp: fieldH_def fieldT_def)
next
  case (Cons f fs)
  obtain k1 v1 where f: "f = (k1, v1)" by (cases f)
  from Cons.prems f obtain t1 gs' where gs: "gs = (k1, t1) # gs'"
    by (cases gs) (auto split: if_splits)
  from Cons.prems f gs obtain c1 c2 where l1: "lay h v1 t1 = Some c1" and l2: "layFields h fs gs' = Some c2"
    and cs: "cs = c1 @ c2"
    by (auto split: option.splits)
  show ?case
  proof (cases "k1 = k")
    case True
    then show ?thesis using l1 l2 cs by (auto simp: f gs fieldH_def fieldT_def)
  next
    case False
    from Cons.IH[OF l2] obtain d1 d2 where
      a: "layFields h (delFirst k fs) (delFirst k gs') = Some d1" and
      b: "lay h (fieldH fs k) (fieldT gs' k) = Some d2" and
      c: "set c2 = set d1 \<union> set d2" and
      d: "distinct c2 \<longrightarrow> distinct d1 \<and> distinct d2 \<and> set d1 \<inter> set d2 = {}" by blast
    have "layFields h (delFirst k (f # fs)) (delFirst k gs) = Some (c1 @ d1)"
      using False l1 a by (simp add: f gs)
    moreover have "lay h (fieldH (f # fs) k) (fieldT gs k) = Some d2"
      using False b by (simp add: f gs fieldH_def fieldT_def)
    moreover have "set cs = set (c1 @ d1) \<union> set d2" using c cs by auto
    moreover have "distinct cs \<longrightarrow> distinct (c1 @ d1) \<and> distinct d2 \<and> set (c1 @ d1) \<inter> set d2 = {}"
      using c d cs by auto
    ultimately show ?thesis by blast
  qed
qed

lemma layFields_join:
  "layFields h (delFirst k fs) (delFirst k gs) = Some c1 \<Longrightarrow> map fst fs = map fst gs \<Longrightarrow>
   lay h x t = Some cx \<Longrightarrow>
   \<exists>c. layFields h (putField fs k x) (putField gs k t) = Some c \<and> set c = set c1 \<union> set cx \<and>
       (distinct c1 \<and> distinct cx \<and> set c1 \<inter> set cx = {} \<longrightarrow> distinct c)"
proof (induction fs arbitrary: gs c1)
  case Nil
  then show ?case by auto
next
  case (Cons f fs)
  obtain k1 v1 where f: "f = (k1, v1)" by (cases f)
  from Cons.prems(2) f obtain t1 gs' where gs: "gs = (k1, t1) # gs'" and ks: "map fst fs = map fst gs'"
    by (cases gs) auto
  show ?case
  proof (cases "k1 = k")
    case True
    then show ?thesis using Cons.prems by (auto simp: f gs)
  next
    case False
    from Cons.prems(1) False obtain ca cb where l1: "lay h v1 t1 = Some ca"
      and l2: "layFields h (delFirst k fs) (delFirst k gs') = Some cb" and c1: "c1 = ca @ cb"
      by (auto simp: f gs split: option.splits)
    from Cons.IH[OF l2 ks Cons.prems(3)] obtain c where
      a: "layFields h (putField fs k x) (putField gs' k t) = Some c" and
      b: "set c = set cb \<union> set cx" and
      d: "distinct cb \<and> distinct cx \<and> set cb \<inter> set cx = {} \<longrightarrow> distinct c" by blast
    have "layFields h (putField (f # fs) k x) (putField gs k t) = Some (ca @ c)"
      using False l1 a by (simp add: f gs)
    moreover have "set (ca @ c) = set c1 \<union> set cx" using b c1 by auto
    moreover have "distinct c1 \<and> distinct cx \<and> set c1 \<inter> set cx = {} \<longrightarrow> distinct (ca @ c)"
      using b d c1 by auto
    ultimately show ?thesis by blast
  qed
qed

lemma delFirst_commute: "delFirst k (delFirst k' fs) = delFirst k' (delFirst k fs)"
  by (induction fs) auto

lemma delFirst_putField: "k \<noteq> k' \<Longrightarrow> delFirst k (putField fs k' x) = putField (delFirst k fs) k' x"
  by (induction fs) auto

lemma fieldH_delFirst: "k \<noteq> k' \<Longrightarrow> fieldH (delFirst k' fs) k = fieldH fs k"
  by (induction fs) (auto simp: fieldH_def)

lemma fieldT_delFirst: "k \<noteq> k' \<Longrightarrow> fieldT (delFirst k' gs) k = fieldT gs k"
  by (induction gs) (auto simp: fieldT_def)

lemma map_fst_delFirst: "map fst fs = map fst gs \<Longrightarrow> map fst (delFirst k fs) = map fst (delFirst k gs)"
proof (induction fs arbitrary: gs)
  case Nil
  then show ?case by simp
next
  case (Cons f fs)
  then show ?case by (cases gs; cases f) auto
qed

lemma map_fst_putField: "map fst fs = map fst gs \<Longrightarrow> map fst (putField fs k x) = map fst (putField gs k t)"
proof (induction fs arbitrary: gs)
  case Nil
  then show ?case by simp
next
  case (Cons f fs)
  then show ?case by (cases gs; cases f) auto
qed

subsection \<open>Frames and sets\<close>

lemma extends_refl: "extends h h X"
  by (simp add: extends_def)

lemma extends_mono: "extends h h' X \<Longrightarrow> X \<subseteq> Y \<Longrightarrow> extends h h' Y"
  by (auto simp: extends_def)

lemma extends_trans: "extends h h' X \<Longrightarrow> extends h' h'' Y \<Longrightarrow> extends h h'' (X \<union> Y)"
  by (auto simp: extends_def)

lemma extends_length: "extends h h' X \<Longrightarrow> length h \<le> length h'"
  by (simp add: extends_def)

lemma extends_append: "extends h (h @ hs) X"
  by (simp add: extends_def nth_append)

lemma extends_nth: "extends h h' X \<Longrightarrow> x < length h \<Longrightarrow> x \<notin> X \<Longrightarrow> h' ! x = h ! x"
  by (simp add: extends_def)

lemma extends_lay:
  assumes "extends h h' X"
  shows "lay h v t = Some cs \<Longrightarrow> set cs \<inter> X = {} \<Longrightarrow> lay h' v t = Some cs"
    and "layList h vs ts = Some cs \<Longrightarrow> set cs \<inter> X = {} \<Longrightarrow> layList h' vs ts = Some cs"
    and "layFields h fs gs = Some cs \<Longrightarrow> set cs \<inter> X = {} \<Longrightarrow> layFields h' fs gs = Some cs"
proof -
  show "lay h v t = Some cs \<Longrightarrow> set cs \<inter> X = {} \<Longrightarrow> lay h' v t = Some cs"
    using lay_frame(1)[of h v t cs h'] lay_bound(1)[of h v t cs] assms
    by (auto simp: extends_def)
  show "layList h vs ts = Some cs \<Longrightarrow> set cs \<inter> X = {} \<Longrightarrow> layList h' vs ts = Some cs"
    using lay_frame(2)[of h vs ts cs h'] lay_bound(2)[of h vs ts cs] assms
    by (auto simp: extends_def)
  show "layFields h fs gs = Some cs \<Longrightarrow> set cs \<inter> X = {} \<Longrightarrow> layFields h' fs gs = Some cs"
    using lay_frame(3)[of h fs gs cs h'] lay_bound(3)[of h fs gs cs] assms
    by (auto simp: extends_def)
qed

lemma extends_hGetProp:
  "extends h h' X \<Longrightarrow> a < length h \<Longrightarrow> a \<notin> X \<Longrightarrow> hGetProp h' (HRef a) k = hGetProp h (HRef a) k"
  by (auto simp: extends_def hGetProp_def cell_def)

lemma set_hSetAdd: "set (hSetAdd s v) = insert v (set s)"
  by (auto simp: hSetAdd_def)

lemma set_foldl_hSetAdd: "set (foldl hSetAdd acc xs) = set acc \<union> set xs"
  by (induction xs arbitrary: acc) (auto simp: set_hSetAdd)

lemma set_hNewSet: "set (hNewSet xs) = set xs"
  by (simp add: hNewSet_def set_foldl_hSetAdd)

lemma foldl_hSetAdd_Nil_iff: "foldl hSetAdd u xs = [] \<longleftrightarrow> u = [] \<and> xs = []"
  by (metis set_foldl_hSetAdd set_empty Un_empty)

lemma hNewSet_Nil_iff: "hNewSet xs = [] \<longleftrightarrow> xs = []"
  by (simp add: hNewSet_def foldl_hSetAdd_Nil_iff)

lemma lay_HStr: "lay h (HStr k) t = Some c \<Longrightarrow> t = JStr k"
  by (cases t) (auto split: if_splits)

lemma lay_JStr: "lay h v (JStr k) = Some c \<Longrightarrow> v = HStr k"
  by (cases v) (auto split: if_splits)

lemma layList_strings:
  "layList h vs ts = Some c \<Longrightarrow> HStr k \<in> set vs \<longleftrightarrow> JStr k \<in> set ts"
proof (induction vs arbitrary: ts c)
  case Nil
  then show ?case by (cases ts) auto
next
  case (Cons v vs)
  from Cons.prems obtain t ts' where ts: "ts = t # ts'" by (cases ts) auto
  from Cons.prems ts obtain c1 c2 where l1: "lay h v t = Some c1" and l2: "layList h vs ts' = Some c2"
    by (auto split: option.splits)
  have "v = HStr k \<longleftrightarrow> t = JStr k" using l1 lay_HStr lay_JStr by blast
  with Cons.IH[OF l2] show ?case by (auto simp: ts)
qed

lemma layList_sameKinds: "layList h vs ts = Some c \<Longrightarrow> sameKinds vs ts"
  using layList_length[of h vs ts c] layList_strings[of h vs ts c]
  by (auto simp: sameKinds_def)

lemma lay_registry:
  "lay h v t = Some c \<Longrightarrow> distinct c \<Longrightarrow> cacheMap_hasOwnPropertyH h v = cacheMap_hasOwnProperty t"
  using lay_toStr(1)[of h v t c "[]"]
  by (simp add: cacheMap_hasOwnPropertyH_def cacheMap_hasOwnProperty_def)

lemma filterE_lay:
  "layList h vs ts = Some c \<Longrightarrow> distinct c \<Longrightarrow> list_all (\<lambda>e. supported e \<or> unsupported e) ts \<Longrightarrow>
   \<exists>sup c'. filterE (cacheMap_hasOwnPropertyH h) vs = Inr sup \<and>
            layList h sup (filter supported ts) = Some c'"
proof (induction vs arbitrary: ts c)
  case Nil
  then show ?case by (cases ts) auto
next
  case (Cons v vs)
  from Cons.prems(1) obtain t ts' where ts: "ts = t # ts'" by (cases ts) auto
  from Cons.prems(1) ts obtain c1 c2 where l1: "lay h v t = Some c1" and l2: "layList h vs ts' = Some c2"
    and c: "c = c1 @ c2"
    by (auto split: option.splits)
  from Cons.prems(2) c have d1: "distinct c1" and d2: "distinct c2" by simp_all
  from Cons.prems(3) ts have st: "supported t \<or> unsupported t"
    and rest: "list_all (\<lambda>e. supported e \<or> unsupported e) ts'" by simp_all
  from Cons.IH[OF l2 d2 rest] obtain sup c' where f: "filterE (cacheMap_hasOwnPropertyH h) vs = Inr sup"
    and ls: "layList h sup (filter supported ts') = Some c'" by blast
  have r: "cacheMap_hasOwnPropertyH h v = cacheMap_hasOwnProperty t" using l1 d1 by (rule lay_registry)
  from st show ?case
  proof
    assume s: "supported t"
    then have "cacheMap_hasOwnPropertyH h v = Inr True" using r by (simp add: supported_def)
    then show ?thesis using f ls l1 s by (simp add: ts)
  next
    assume u: "unsupported t"
    then have "cacheMap_hasOwnPropertyH h v = Inr False" using r by (simp add: unsupported_def)
    moreover from u have "\<not> supported t" by (simp add: supported_def unsupported_def)
    ultimately show ?thesis using f ls by (simp add: ts)
  qed
qed
lemma lay_unique:
  "lay h v t = Some c \<Longrightarrow> lay h v t' = Some c' \<Longrightarrow> t = t'"
  "layList h vs ts = Some c \<Longrightarrow> layList h vs ts' = Some c' \<Longrightarrow> ts = ts'"
  "layFields h fs gs = Some c \<Longrightarrow> layFields h fs gs' = Some c' \<Longrightarrow> gs = gs'"
proof (induction h v t and h vs ts and h fs gs arbitrary: c c' t' and c c' ts' and c c' gs'
    rule: lay_layList_layFields.induct)
  case (1 h)
  then show ?case by (cases t') simp_all
next
  case (2 h)
  then show ?case by (cases t') simp_all
next
  case (3 h b c)
  then show ?case by (cases t') (simp_all split: if_splits)
next
  case (4 h n m)
  then show ?case by (cases t') (simp_all split: if_splits)
next
  case (5 h s s')
  then show ?case by (cases t') (simp_all split: if_splits)
next
  case (6 h a ts)
  from "6.prems"(1) obtain vs d where c: "cell h (HRef a) = Some (HArr vs)" and l: "layList h vs ts = Some d"
    by (auto split: option.splits hobj.splits)
  from "6.prems"(2) c obtain ts2 d' where t': "t' = JArr ts2" and l': "layList h vs ts2 = Some d'"
    by (cases t') (auto split: option.splits hobj.splits)
  from "6.IH"[OF c refl l l'] show ?case by (simp add: t')
next
  case (7 h a gs)
  from "7.prems"(1) obtain fs d where c: "cell h (HRef a) = Some (HObj fs)" and l: "layFields h fs gs = Some d"
    by (auto split: option.splits hobj.splits)
  from "7.prems"(2) c obtain gs2 d' where t': "t' = JObj gs2" and l': "layFields h fs gs2 = Some d'"
    by (cases t') (auto split: option.splits hobj.splits)
  from "7.IH"[OF c refl l l'] show ?case by (simp add: t')
next
  case (9 h)
  then show ?case by (cases ts') simp_all
next
  case (10 h v vs t ts)
  from "10.prems"(1) obtain c1 c2 where l1: "lay h v t = Some c1" and l2: "layList h vs ts = Some c2"
    by (auto split: option.splits)
  from "10.prems"(2) obtain t2 ts2 d1 d2 where ts': "ts' = t2 # ts2" and m1: "lay h v t2 = Some d1"
    and m2: "layList h vs ts2 = Some d2"
    by (cases ts') (auto split: option.splits)
  from "10.IH"(1)[OF l1 m1] "10.IH"(2)[OF l1 l2 m2] show ?case by (simp add: ts')
next
  case (12 h)
  then show ?case by (cases gs') simp_all
next
  case (13 h k v fs k' t gs)
  from "13.prems"(1) obtain c1 c2 where kk: "k = k'" and l1: "lay h v t = Some c1" and l2: "layFields h fs gs = Some c2"
    by (auto split: option.splits if_splits)
  from "13.prems"(2) obtain t2 gs2 d1 d2 where gs': "gs' = (k, t2) # gs2" and m1: "lay h v t2 = Some d1"
    and m2: "layFields h fs gs2 = Some d2"
    by (cases gs') (auto split: option.splits if_splits)
  from "13.IH"(1)[OF kk l1 m1] "13.IH"(2)[OF kk l1 l2 m2] show ?case by (simp add: gs' kk)
qed simp_all

lemma denotes_unique: "denotes h v t \<Longrightarrow> denotes h v t' \<Longrightarrow> t = t'"
  using lay_unique(1) by (auto simp: denotes_def)


subsection \<open>Updates of the store\<close>

lemma createCacheMountsH_eq: "createCacheMountsH h caches = hStoreList h (mountList caches)"
  by (simp add: createCacheMountsH_def mountList_def)

lemma fieldH_Some: "fieldH fs k = HRef b \<Longrightarrow> map_of fs k = Some (HRef b)"
  by (auto simp: fieldH_def split: option.splits)

lemma addStepVolumesH_lay:
  assumes L: "lay h (HRef a) (JObj gs) = Some cs" and D: "distinct cs"
    and V: "nullish (fieldT gs ''volumes'') \<or> isArray (fieldT gs ''volumes'')"
  shows "\<exists>h' c'. addStepVolumesH h (HRef a) caches = Inr h' \<and>
          extends h h' ({a} \<union> {x. HRef x = hGetProp h (HRef a) ''volumes''}) \<and>
          lay h' (HRef a)
            (JObj (putField gs ''volumes'' (JArr (elems (fieldT gs ''volumes'') @ mountList caches)))) = Some c' \<and>
          set c' \<subseteq> set cs \<union> {length h..<length h'}"
proof -
  from lay_JObj[OF L] obtain fs c where a: "a < length h" and ha: "h ! a = HObj fs"
    and lf: "layFields h fs gs = Some c" and cs: "cs = a # c" by blast
  from D cs have ac: "a \<notin> set c" and dc: "distinct c" by simp_all
  from layFields_split[OF lf, of "''volumes''"] dc obtain c1 c2 where
    l1: "layFields h (delFirst ''volumes'' fs) (delFirst ''volumes'' gs) = Some c1" and
    l2: "lay h (fieldH fs ''volumes'') (fieldT gs ''volumes'') = Some c2" and
    sc: "set c = set c1 \<union> set c2" and d1: "distinct c1" and d2: "distinct c2" and dj: "set c1 \<inter> set c2 = {}"
    by blast
  have g: "hGetProp h (HRef a) ''volumes'' = fieldH fs ''volumes''" using a ha by (rule hGetProp_obj)
  have ks: "map fst fs = map fst gs" using lf by (rule layFields_keys)
  have b1: "\<forall>x\<in>set c1. x < length h" using lay_bound(3)[OF l1] .
  show ?thesis
  proof (cases "nullish (fieldT gs ''volumes'')")
    case True
    with lay_nullish[OF l2] have hn: "hNullish (fieldH fs ''volumes'')" by simp
    from True have el: "elems (fieldT gs ''volumes'') = []" by (auto simp: nullish_def elems_def)
    let ?n = "length h"
    let ?h1 = "h @ [HArr []]"
    let ?h2 = "?h1[a := HObj (putField fs ''volumes'' (HRef ?n))]"
    obtain h3 ms where st: "hStoreList ?h2 (mountList caches) = (h3, ms)"
      by (cases "hStoreList ?h2 (mountList caches)")
    from hStore_lay(2)[OF st] obtain hs cm where h3: "h3 = ?h2 @ hs"
      and lm: "layList h3 ms (mountList caches) = Some cm" and bm: "\<forall>x\<in>set cm. length ?h2 \<le> x" by blast
    let ?h4 = "h3[?n := HArr ms]"
    have c1: "cell ?h1 (HRef a) = Some (HObj fs)" using a ha by (simp add: cell_def nth_append)
    have s2: "hSetProp ?h1 (HRef a) ''volumes'' (HRef ?n) = ?h2" using c1 by (simp add: hSetProp_def)
    have h3a: "h3 ! a = HObj (putField fs ''volumes'' (HRef ?n))" using a by (simp add: h3 nth_append)
    have g3: "hGetProp h3 (HRef a) ''volumes'' = HRef ?n"
      using a h3a by (simp add: hGetProp_def cell_def h3 map_of_putField)
    have h3n: "h3 ! ?n = HArr []" using a by (simp add: h3 nth_append)
    have c3: "cell h3 (HRef ?n) = Some (HArr [])" using h3n by (simp add: cell_def h3)
    have run: "addStepVolumesH h (HRef a) caches = Inr ?h4"
      using hn by (simp add: addStepVolumesH_def g hAlloc_def s2 createCacheMountsH_eq st g3 hPush_def c3)
    have len: "length h \<le> length ?h4" by (simp add: h3)
    have fr: "\<forall>x<length h. x \<noteq> a \<longrightarrow> ?h4 ! x = h ! x" by (simp add: h3 nth_append)
    have f1: "layFields ?h4 (delFirst ''volumes'' fs) (delFirst ''volumes'' gs) = Some c1"
    proof (rule lay_frame(3)[OF l1 len])
      show "\<forall>x\<in>set c1. ?h4 ! x = h ! x" using b1 fr ac sc by blast
    qed
    have lm4: "layList ?h4 ms (mountList caches) = Some cm"
    proof (rule lay_frame(2)[OF lm])
      show "length h3 \<le> length ?h4" by simp
      show "\<forall>x\<in>set cm. ?h4 ! x = h3 ! x" using bm by auto
    qed
    have ln: "lay ?h4 (HRef ?n) (JArr (mountList caches)) = Some (?n # cm)"
      using lm4 by (intro lay_JArr_intro) (simp_all add: h3)
    from layFields_join[OF f1 ks ln] obtain c' where
      j: "layFields ?h4 (putField fs ''volumes'' (HRef ?n))
            (putField gs ''volumes'' (JArr (mountList caches))) = Some c'"
      and sj: "set c' = set c1 \<union> set (?n # cm)" by blast
    have h4a: "?h4 ! a = HObj (putField fs ''volumes'' (HRef ?n))" using a h3a by simp
    have la: "lay ?h4 (HRef a) (JObj (putField gs ''volumes'' (JArr (mountList caches)))) = Some (a # c')"
      using a j h4a by (intro lay_JObj_intro) (simp_all add: h3)
    have bcm: "\<forall>x\<in>set cm. x < length ?h4" using lay_bound(2)[OF lm4] .
    have sub: "set (a # c') \<subseteq> set cs \<union> {length h..<length ?h4}"
      using sj sc cs bcm bm by (auto simp: h3)
    have ex: "extends h ?h4 ({a} \<union> {x. HRef x = hGetProp h (HRef a) ''volumes''})"
      using len fr by (simp add: extends_def)
    show ?thesis using run ex la sub by (auto simp: el)
  next
    case False
    with V have ia: "isArray (fieldT gs ''volumes'')" by simp
    from lay_elems[OF l2 ia] obtain av c0 where v0: "fieldH fs ''volumes'' = HRef av" and av: "av < length h"
      and hav: "h ! av = HArr (hElems h (fieldH fs ''volumes''))"
      and l0: "layList h (hElems h (fieldH fs ''volumes'')) (elems (fieldT gs ''volumes'')) = Some c0"
      and c2: "c2 = av # c0" by blast
    let ?vs = "hElems h (fieldH fs ''volumes'')"
    from ia obtain ts0 where t0: "fieldT gs ''volumes'' = JArr ts0" by (cases "fieldT gs ''volumes''") (auto simp: isArray_def)
    have nn: "\<not> hNullish (fieldH fs ''volumes'')" by (simp add: v0 hNullish_def)
    have mo: "map_of fs ''volumes'' = Some (HRef av)" using v0 by (rule fieldH_Some)
    have pf: "putField fs ''volumes'' (HRef av) = fs" using mo by (rule putField_same)
    have ca: "cell h (HRef a) = Some (HObj fs)" using a ha by (simp add: cell_def)
    have "h[a := HObj fs] = h" using ha by (metis list_update_id)
    then have s2: "hSetProp h (HRef a) ''volumes'' (HRef av) = h" using ca by (simp add: hSetProp_def pf)
    obtain h3 ms where st: "hStoreList h (mountList caches) = (h3, ms)"
      by (cases "hStoreList h (mountList caches)")
    from hStore_lay(2)[OF st] obtain hs cm where h3: "h3 = h @ hs"
      and lm: "layList h3 ms (mountList caches) = Some cm" and bm: "\<forall>x\<in>set cm. length h \<le> x" by blast
    let ?h4 = "h3[av := HArr (?vs @ ms)]"
    have g3: "hGetProp h3 (HRef a) ''volumes'' = HRef av"
      using a ha v0 by (simp add: hGetProp_def cell_def h3 nth_append fieldH_def)
    have c3: "cell h3 (HRef av) = Some (HArr ?vs)" using av hav by (simp add: cell_def h3 nth_append)
    have run: "addStepVolumesH h (HRef a) caches = Inr ?h4"
      using nn by (simp add: addStepVolumesH_def g s2 createCacheMountsH_eq st g3 hPush_def c3 v0)
    have len: "length h \<le> length ?h4" by (simp add: h3)
    have fr: "\<forall>x<length h. x \<noteq> av \<longrightarrow> ?h4 ! x = h ! x" by (simp add: h3 nth_append)
    from c2 d2 have avc0: "av \<notin> set c0" by simp
    from c2 dj have avc1: "av \<notin> set c1" by auto
    from sc c2 ac have ava: "av \<noteq> a" by auto
    have f1: "layFields ?h4 (delFirst ''volumes'' fs) (delFirst ''volumes'' gs) = Some c1"
    proof (rule lay_frame(3)[OF l1 len])
      show "\<forall>x\<in>set c1. ?h4 ! x = h ! x" using b1 fr avc1 by blast
    qed
    have f0: "layList ?h4 ?vs (elems (fieldT gs ''volumes'')) = Some c0"
    proof (rule lay_frame(2)[OF l0 len])
      show "\<forall>x\<in>set c0. ?h4 ! x = h ! x" using lay_bound(2)[OF l0] fr avc0 by blast
    qed
    have lm4: "layList ?h4 ms (mountList caches) = Some cm"
    proof (rule lay_frame(2)[OF lm])
      show "length h3 \<le> length ?h4" by simp
      show "\<forall>x\<in>set cm. ?h4 ! x = h3 ! x" using bm av by auto
    qed
    have ln: "lay ?h4 (HRef av) (JArr (elems (fieldT gs ''volumes'') @ mountList caches)) = Some (av # c0 @ cm)"
      using layList_append[OF f0 lm4] av by (intro lay_JArr_intro) (simp_all add: h3)
    from layFields_join[OF f1 ks ln] obtain c' where
      j: "layFields ?h4 (putField fs ''volumes'' (HRef av))
            (putField gs ''volumes'' (JArr (elems (fieldT gs ''volumes'') @ mountList caches))) = Some c'"
      and sj: "set c' = set c1 \<union> set (av # c0 @ cm)" by blast
    have h4a: "?h4 ! a = HObj fs" using a ha ava by (simp add: h3 nth_append)
    have la: "lay ?h4 (HRef a)
        (JObj (putField gs ''volumes'' (JArr (elems (fieldT gs ''volumes'') @ mountList caches)))) = Some (a # c')"
      using a j h4a by (intro lay_JObj_intro) (simp_all add: h3 pf)
    have bcm: "\<forall>x\<in>set cm. x < length ?h4" using lay_bound(2)[OF lm4] .
    have sub: "set (a # c') \<subseteq> set cs \<union> {length h..<length ?h4}"
      using sj sc cs c2 bcm bm by (auto simp: h3)
    have fr': "\<forall>x<length h. x \<noteq> a \<longrightarrow> HRef x \<noteq> hGetProp h (HRef a) ''volumes'' \<longrightarrow> ?h4 ! x = h ! x"
      using fr by (simp add: g v0)
    have ex: "extends h ?h4 ({a} \<union> {x. HRef x = hGetProp h (HRef a) ''volumes''})"
      using len fr' by (simp add: extends_def)
    show ?thesis using run ex la sub by blast
  qed
qed
lemma createCacheStepH_lay:
  assumes ln: "lay h nameV nameT = Some cn" and dn: "distinct cn" and n: "toStr nameT = Inr n"
    and lw: "lay h whenV whenT = Some cw" and dw: "distinct cw"
  shows "\<exists>h' r rv cr. createCacheStepH p h nameV whenV action caches = Inr (h', HRef r) \<and>
           extends h h' {} \<and> length h \<le> r \<and>
           hGetProp h' (HRef r) ''volumes'' = HRef rv \<and> length h \<le> rv \<and>
           lay h' (HRef r) (JObj (genStep p n whenT action caches)) = Some cr \<and> distinct cr \<and>
           set cr \<subseteq> set cw \<union> {length h..<length h'}"
proof -
  let ?setT = "JObj [(''mount'', JArr (pathList caches))]"
  let ?volT = "JArr [JObj [(''name'', JStr ''cache''),
                (''path'', coalesce (getProp (JObj (cacheEnv p)) ''PLUGIN_FILESYSTEM_CACHE_ROOT'')
                             (JStr ''/tmp/cache''))]]"
  obtain h1 ev where s1: "hStore h (JObj (cacheEnv p)) = (h1, ev)" by (cases "hStore h (JObj (cacheEnv p))")
  from hStore_lay(1)[OF s1] obtain hs1 ce where h1: "h1 = h @ hs1" and le: "lay h1 ev (JObj (cacheEnv p)) = Some ce"
    and de: "distinct ce" and be: "\<forall>x\<in>set ce. length h \<le> x" by blast
  obtain h2 sv where s2: "hStore h1 ?setT = (h2, sv)" by (cases "hStore h1 ?setT")
  from hStore_lay(1)[OF s2] obtain hs2 css where h2: "h2 = h1 @ hs2" and ls: "lay h2 sv ?setT = Some css"
    and ds: "distinct css" and bs: "\<forall>x\<in>set css. length h1 \<le> x" by blast
  from lay_JObj[OF ls] obtain sa fsS cS where sv: "sv = HRef sa" and sa: "sa < length h2" and hsa: "h2 ! sa = HObj fsS"
    and lfs: "layFields h2 fsS [(''mount'', JArr (pathList caches))] = Some cS" and css: "css = sa # cS" by blast
  obtain h3 vv where s3: "hStore h2 ?volT = (h3, vv)" by (cases "hStore h2 ?volT")
  from hStore_lay(1)[OF s3] obtain hs3 cv where h3: "h3 = h2 @ hs3" and lv: "lay h3 vv ?volT = Some cv"
    and dv: "distinct cv" and bv: "\<forall>x\<in>set cv. length h2 \<le> x" by blast
  let ?fields = "[(''name'', HStr (n @ ''-cache-'' @ action)),
                   (''image'', HStr (image_name p)),
                   (''environment'', ev),
                   (''settings'', sv),
                   (''volumes'', vv),
                   (''when'', whenV)]"
  let ?r = "length h3"
  let ?h4 = "h3 @ [HObj ?fields]"
  let ?h5 = "?h4[sa := HObj (putField fsS action (HBool True))]"
  have sal: "length h1 \<le> sa" using bs css by simp
  have sar: "sa \<noteq> ?r" using sa by (simp add: h3)
  have nm: "toStrH [] h1 nameV = Inr n"
  proof -
    have "lay h1 nameV nameT = Some cn"
      using lay_frame(1)[OF ln, of h1] lay_bound(1)[OF ln] by (simp add: h1 nth_append)
    from lay_toStr(1)[OF this dn, of "[]"] n show ?thesis by simp
  qed
  have g4: "\<And>fs. map_of fs ''settings'' = Some sv \<Longrightarrow>
              hGetProp (h3 @ [HObj fs]) (HRef ?r) ''settings'' = HRef sa"
    by (simp add: hGetProp_def cell_def sv)
  have c4: "\<And>ob. cell (h3 @ [ob]) (HRef sa) = Some (HObj fsS)"
    using sa hsa by (simp add: cell_def h3 nth_append)
  have run: "createCacheStepH p h nameV whenV action caches = Inr (?h5, HRef ?r)"
    unfolding createCacheStepH_def
    by (simp add: s1 nm pathList_def[symmetric] s2 s3 hAlloc_def g4 hSetProp_def c4 del: hStore.simps)
  have len: "length h \<le> length ?h5" by (simp add: h1 h2 h3)
  have F0: "\<And>x. x < length h \<Longrightarrow> ?h5 ! x = h ! x"
    using sal by (simp add: h1 h2 h3 nth_append)
  have F1: "\<And>x. x < length h1 \<Longrightarrow> ?h5 ! x = h1 ! x"
    using sal by (simp add: h2 h3 nth_append)
  have F2: "\<And>x. x < length h2 \<Longrightarrow> x \<noteq> sa \<Longrightarrow> ?h5 ! x = h2 ! x"
    by (simp add: h3 nth_append)
  have F3: "\<And>x. x < length h3 \<Longrightarrow> x \<noteq> sa \<Longrightarrow> ?h5 ! x = h3 ! x"
    by (simp add: nth_append)
  have fr: "\<forall>x<length h. ?h5 ! x = h ! x" using F0 by blast
  have b1: "length h \<le> length h1" "length h1 \<le> length h2" "length h2 \<le> length h3"
    by (simp_all add: h1 h2 h3)
  have le5: "lay ?h5 ev (JObj (cacheEnv p)) = Some ce"
  proof (rule lay_frame(1)[OF le])
    show "length h1 \<le> length ?h5" by (simp add: h2 h3)
    show "\<forall>x\<in>set ce. ?h5 ! x = h1 ! x"
      using lay_bound(1)[OF le] F1 by blast
  qed
  have lw5: "lay ?h5 whenV whenT = Some cw"
  proof (rule lay_frame(1)[OF lw len])
    show "\<forall>x\<in>set cw. ?h5 ! x = h ! x" using lay_bound(1)[OF lw] fr by blast
  qed
  have lv5: "lay ?h5 vv ?volT = Some cv"
  proof (rule lay_frame(1)[OF lv])
    show "length h3 \<le> length ?h5" by simp
    show "\<forall>x\<in>set cv. ?h5 ! x = h3 ! x"
    proof
      fix x assume x: "x \<in> set cv"
      with lay_bound(1)[OF lv] bv sa have "x < length h3" "x \<noteq> sa" by auto
      then show "?h5 ! x = h3 ! x" by (rule F3)
    qed
  qed
  from css ds have sacs: "sa \<notin> set cS" and dcs: "distinct cS" by simp_all
  from layFields_split[OF lfs, of action] dcs obtain c1 c2 where
    l1: "layFields h2 (delFirst action fsS) (delFirst action [(''mount'', JArr (pathList caches))]) = Some c1"
    and sc: "set cS = set c1 \<union> set c2" and d1: "distinct c1" by blast
  have l15: "layFields ?h5 (delFirst action fsS) (delFirst action [(''mount'', JArr (pathList caches))]) = Some c1"
  proof (rule lay_frame(3)[OF l1])
    show "length h2 \<le> length ?h5" by (simp add: h3)
    show "\<forall>x\<in>set c1. ?h5 ! x = h2 ! x"
    proof
      fix x assume x: "x \<in> set c1"
      with lay_bound(3)[OF l1] sacs sc have "x < length h2" "x \<noteq> sa" by auto
      then show "?h5 ! x = h2 ! x" by (rule F2)
    qed
  qed
  have ks: "map fst fsS = map fst [(''mount'', JArr (pathList caches))]" using lfs by (rule layFields_keys)
  have lt: "lay ?h5 (HBool True) (JBool True) = Some []" by simp
  from layFields_join[OF l15 ks lt] d1 obtain c' where
    j: "layFields ?h5 (putField fsS action (HBool True))
          (putField [(''mount'', JArr (pathList caches))] action (JBool True)) = Some c'"
    and sj: "set c' = set c1" and dc': "distinct c'" by auto
  have h5sa: "?h5 ! sa = HObj (putField fsS action (HBool True))" using sa by (simp add: h3)
  have ls5: "lay ?h5 (HRef sa) (JObj (putField [(''mount'', JArr (pathList caches))] action (JBool True)))
               = Some (sa # c')"
    using sa j h5sa by (intro lay_JObj_intro) (simp_all add: h3)
  have h5r: "?h5 ! ?r = HObj ?fields" using sar by simp
  have lf5: "layFields ?h5 ?fields (genStep p n whenT action caches) = Some (ce @ (sa # c') @ cv @ cw)"
    using le5 ls5 lv5 lw5 by (simp add: genStep_def sv)
  have lr: "lay ?h5 (HRef ?r) (JObj (genStep p n whenT action caches)) = Some (?r # ce @ (sa # c') @ cv @ cw)"
    using lf5 h5r by (intro lay_JObj_intro) simp_all
  have bce: "\<forall>x\<in>set ce. length h \<le> x \<and> x < length h1" using be lay_bound(1)[OF le] by blast
  have bc': "\<forall>x\<in>set c'. length h1 \<le> x \<and> x < length h2" using sj sc bs css lay_bound(3)[OF l1] by auto
  have bcv: "\<forall>x\<in>set cv. length h2 \<le> x \<and> x < length h3" using bv lay_bound(1)[OF lv] by blast
  have bcw: "\<forall>x\<in>set cw. x < length h" using lay_bound(1)[OF lw] .
  have sac': "sa \<notin> set c'" using sj sc sacs by simp
  have dist: "distinct (?r # ce @ (sa # c') @ cv @ cw)"
    using de dc' dv dw bce bc' bcv bcw sac' sal sa b1 by (fastforce simp: h3)
  have sub: "set (?r # ce @ (sa # c') @ cv @ cw) \<subseteq> set cw \<union> {length h..<length ?h5}"
    using bce bc' bcv sal sa b1 by (fastforce simp: h3)
  from lay_JArr[OF lv] obtain rv where vv: "vv = HRef rv" and "rv \<in> set cv" by auto
  with bv b1 have rv: "length h \<le> rv" by force
  have gv: "hGetProp ?h5 (HRef ?r) ''volumes'' = HRef rv"
    using h5r by (simp add: hGetProp_def cell_def vv)
  have ex: "extends h ?h5 {}" using len fr by (simp add: extends_def)
  have rr: "length h \<le> ?r" using b1 by simp
  show ?thesis using run ex rr gv rv lr dist sub by blast
qed
lemma pathList_cacheSet:
  assumes "\<forall>k. HStr k \<in> set caches \<longleftrightarrow> JStr k \<in> set (cacheSet s)"
  shows "pathList caches = map JStr (mountPaths s)"
proof -
  have "filter (\<lambda>(cache, path). HStr cache \<in> set caches) cacheMap
        = filter (\<lambda>(cache, path). setHas (cacheSet s) (JStr cache)) cacheMap"
    by (rule filter_cong) (auto simp: assms setHas_str)
  then show ?thesis by (simp add: pathList_def mount_cacheSet)
qed

lemma mountList_cacheSet:
  assumes "\<forall>k. HStr k \<in> set caches \<longleftrightarrow> JStr k \<in> set (cacheSet s)"
  shows "mountList caches = mountsOf s"
proof -
  have "filter (\<lambda>(cache, path). HStr cache \<in> set caches \<and> rooted path) cacheMap
        = filter (\<lambda>(cache, path). setHas (cacheSet s) (JStr cache) \<and> rooted path) cacheMap"
    by (rule filter_cong) (auto simp: assms setHas_str)
  then have "mountList caches = createCacheMounts (cacheSet s)"
    by (simp add: mountList_def createCacheMounts_def)
  then show ?thesis by (simp add: createCacheMounts_cacheSet)
qed

lemma genStep_volumes: "isArray (fieldT (genStep p n w action caches) ''volumes'')"
  by (simp add: genStep_def fieldT_def isArray_def)

lemma genStep_wrapper:
  assumes K: "\<forall>k. HStr k \<in> set caches \<longleftrightarrow> JStr k \<in> set (cacheSet s)"
    and act: "action = ''restore'' \<or> action = ''rebuild''"
  shows "JObj (putField (genStep p n (getProp s ''when'') action caches) ''volumes''
           (JArr (elems (fieldT (genStep p n (getProp s ''when'') action caches) ''volumes'')
                  @ mountList caches)))
         = wrapper p s n action"
  using act
  by (auto simp: genStep_def fieldT_def elems_def wrapper_def pathList_cacheSet[OF K] mountList_cacheSet[OF K])

lemma withMounts_obj:
  "withMounts (JObj gs) =
     JObj (putField gs ''volumes'' (JArr (elems (fieldT gs ''volumes'') @ mountsOf (JObj gs))))"
  by (simp add: withMounts_def setProp_def getProp_obj)

lemma lay_HRef_mem: "lay h (HRef x) t = Some c \<Longrightarrow> x \<in> set c"
  by (cases t) (auto simp: cell_def split: if_splits option.splits hobj.splits)

lemma extends_restrict:
  "extends h h' X \<Longrightarrow> (\<forall>x\<in>X. x < length h \<longrightarrow> x \<in> Y) \<Longrightarrow> extends h h' Y"
  by (auto simp: extends_def)

lemma lay_field_apart:
  assumes L: "lay h (HRef a) (JObj gs) = Some cs" and D: "distinct cs" and kk: "k \<noteq> k'"
    and lk: "lay h (hGetProp h (HRef a) k) (fieldT gs k) = Some ck"
  shows "a \<notin> set ck \<and> (\<forall>x\<in>set ck. HRef x \<noteq> hGetProp h (HRef a) k')"
proof -
  from lay_JObj[OF L] obtain fs c where a: "a < length h" and ha: "h ! a = HObj fs"
    and lf: "layFields h fs gs = Some c" and cs: "cs = a # c" by blast
  from D cs have ac: "a \<notin> set c" and dc: "distinct c" by simp_all
  have g: "\<And>k. hGetProp h (HRef a) k = fieldH fs k" using a ha by (rule hGetProp_obj)
  from layFields_split[OF lf, of k'] dc obtain c1 c2 where
    l1: "layFields h (delFirst k' fs) (delFirst k' gs) = Some c1" and
    l2: "lay h (fieldH fs k') (fieldT gs k') = Some c2" and
    sc: "set c = set c1 \<union> set c2" and dj: "set c1 \<inter> set c2 = {}"
    by blast
  from layFields_field[OF l1, of k] obtain ck' where
    "lay h (fieldH (delFirst k' fs) k) (fieldT (delFirst k' gs) k) = Some ck'" and sub: "set ck' \<subseteq> set c1"
    by blast
  then have "lay h (fieldH fs k) (fieldT gs k) = Some ck'"
    using kk by (simp add: fieldH_delFirst fieldT_delFirst)
  with lk have e: "ck' = ck" by (simp add: g)
  have "HRef x \<noteq> fieldH fs k'" if "x \<in> set ck" for x
  proof
    assume "HRef x = fieldH fs k'"
    with l2 have "x \<in> set c2" using lay_HRef_mem by metis
    with that sub e dj show False by auto
  qed
  then show ?thesis using sub e sc ac by (auto simp: g)
qed
lemma lay_getProp_ref:
  assumes "lay h v t = Some cs" and "hGetProp h v k = HRef x"
  shows "x \<in> set cs"
proof -
  from lay_getProp[OF assms(1), of k] obtain c where
    "lay h (hGetProp h v k) (getProp t k) = Some c" and "set c \<subseteq> set cs" by blast
  with assms(2) lay_HRef_mem[of h x "getProp t k" c] show ?thesis by auto
qed

lemma stepCallbackH_eligible:
  assumes L: "lay h (HRef a) s = Some cs" and D: "distinct cs" and ok: "rewritableStep s"
    and el: "eligible s" and U: "sameKinds used usedT"
  shows "\<exists>h' res r b c' used'. stepCallbackH p h (HRef a) used = Inr (h', res, used') \<and>
           hIsArray h' res \<and> hElems h' res = [r, HRef a, b] \<and>
           extends h h' (set cs) \<and>
           layList h' [r, HRef a, b] (expand p s) = Some c' \<and>
           set c' \<subseteq> set cs \<union> {length h..<length h'} \<and>
           sameKinds used' (usedBy usedT [s])"
proof -
  from el obtain gs where s: "s = JObj gs" by (cases s) (auto simp: eligible_def hasOwn_def)
  note L' = L[unfolded s]
  from lay_bound(1)[OF L] have bcs: "\<forall>x\<in>set cs. x < length h" .
  from lay_HRef_mem[OF L] have acs: "a \<in> set cs" .
  with bcs have a: "a < length h" by blast
  \<comment> \<open>the cache request\<close>
  from el have ho: "hasOwn s ''caches''" and ia: "isArray (getProp s ''caches'')"
    by (simp_all add: eligible_def)
  have nn: "\<not> hNullish (HRef a)" by (simp add: hNullish_def)
  have hho: "hHasOwn h (HRef a) ''caches''" using lay_hasOwn[OF L] ho by simp
  from lay_getProp[OF L, of "''caches''"] D obtain cc where
    lc: "lay h (hGetProp h (HRef a) ''caches'') (getProp s ''caches'') = Some cc" and dcc: "distinct cc"
    by blast
  have hia: "hIsArray h (hGetProp h (HRef a) ''caches'')" using lay_isArray[OF lc] ia by simp
  from lay_elems[OF lc ia] obtain c0 x0 where
    l0: "layList h (hElems h (hGetProp h (HRef a) ''caches'')) (cachesOf s) = Some c0" and "cc = x0 # c0"
    by (auto simp: cachesOf_def)
  with dcc have d0: "distinct c0" by simp
  from ok have allsup: "list_all (\<lambda>e. supported e \<or> unsupported e) (cachesOf s)"
    by (simp add: rewritableStep_def)
  from filterE_lay[OF l0 d0 allsup] obtain sup csup where
    fe: "filterE (cacheMap_hasOwnPropertyH h) (hElems h (hGetProp h (HRef a) ''caches'')) = Inr sup" and
    lsup: "layList h sup (filter supported (cachesOf s)) = Some csup" by blast
  let ?sc = "hNewSet sup"
  let ?used' = "foldl hSetAdd used ?sc"
  from layList_sameKinds[OF lsup] have sk: "sameKinds ?sc (cacheSet s)"
    by (simp add: sameKinds_def cacheSet_def set_newSet set_hNewSet hNewSet_Nil_iff newSet_Nil_iff)
  then have K: "\<forall>k. HStr k \<in> set ?sc \<longleftrightarrow> JStr k \<in> set (cacheSet s)" by (simp add: sameKinds_def)
  from sk eligible_cacheSet[OF el] have ne: "length ?sc \<noteq> 0" by (simp add: sameKinds_def)
  have su: "sameKinds ?used' (usedBy usedT [s])"
    using U sk el
    by (auto simp: sameKinds_def usedBy_def set_foldl_hSetAdd set_foldl_setAdd
        foldl_hSetAdd_Nil_iff foldl_setAdd_Nil_iff)
  \<comment> \<open>name and when\<close>
  from ok el obtain n where n: "toStr (getProp s ''name'') = Inr n"
    by (auto simp: rewritableStep_def split: sum.splits)
  then have nO: "nameOf s = n" by (simp add: nameOf_def)
  from lay_getProp[OF L, of "''name''"] D obtain cn where
    ln: "lay h (hGetProp h (HRef a) ''name'') (getProp s ''name'') = Some cn" and dn: "distinct cn"
    by blast
  from lay_getProp[OF L, of "''when''"] D obtain cw where
    lw: "lay h (hGetProp h (HRef a) ''when'') (getProp s ''when'') = Some cw" and dw: "distinct cw"
    and scw: "set cw \<subseteq> set cs"
    by blast
  from lay_field_apart[OF L' D, of "''when''" "''volumes''" cw] lw
  have acw: "a \<notin> set cw" and vcw: "\<forall>x\<in>set cw. HRef x \<noteq> hGetProp h (HRef a) ''volumes''"
    by (simp_all add: s getProp_obj)
  let ?Xa = "{a} \<union> {x. HRef x = hGetProp h (HRef a) ''volumes''}"
  have Xcw: "set cw \<inter> ?Xa = {}" using acw vcw by auto
  from lay_getProp[OF L, of "''volumes''"] obtain cvol where
    lvol: "lay h (hGetProp h (HRef a) ''volumes'') (getProp s ''volumes'') = Some cvol" and "set cvol \<subseteq> set cs"
    by blast
  then have Xcs: "?Xa \<subseteq> set cs" using acs lay_getProp_ref[OF L] by auto
  \<comment> \<open>the restore step\<close>
  from createCacheStepH_lay[OF ln dn n lw dw, of p "''restore''" ?sc]
  obtain h1 r rv cr where
    run1: "createCacheStepH p h (hGetProp h (HRef a) ''name'') (hGetProp h (HRef a) ''when'') ''restore'' ?sc
             = Inr (h1, HRef r)" and
    e1: "extends h h1 {}" and r: "length h \<le> r" and grv: "hGetProp h1 (HRef r) ''volumes'' = HRef rv"
    and rv: "length h \<le> rv" and
    lr: "lay h1 (HRef r) (JObj (genStep p n (getProp s ''when'') ''restore'' ?sc)) = Some cr" and
    dr: "distinct cr" and scr: "set cr \<subseteq> set cw \<union> {length h..<length h1}"
    by blast
  have r1: "r < length h1" using lay_HRef_mem[OF lr] lay_bound(1)[OF lr] by blast
  have rv1: "rv < length h1" using lay_getProp_ref[OF lr grv] lay_bound(1)[OF lr] by blast
  \<comment> \<open>the rebuild step\<close>
  have g1: "\<And>k. hGetProp h1 (HRef a) k = hGetProp h (HRef a) k"
    using extends_hGetProp[OF e1 a] by simp
  have ln1: "lay h1 (hGetProp h1 (HRef a) ''name'') (getProp s ''name'') = Some cn"
    using extends_lay(1)[OF e1 ln] by (simp add: g1)
  have lw1: "lay h1 (hGetProp h1 (HRef a) ''when'') (getProp s ''when'') = Some cw"
    using extends_lay(1)[OF e1 lw] by (simp add: g1)
  from createCacheStepH_lay[OF ln1 dn n lw1 dw, of p "''rebuild''" ?sc]
  obtain h2 b bv cb where
    run2: "createCacheStepH p h1 (hGetProp h (HRef a) ''name'') (hGetProp h (HRef a) ''when'') ''rebuild'' ?sc
             = Inr (h2, HRef b)" and
    e2: "extends h1 h2 {}" and b: "length h1 \<le> b" and gbv: "hGetProp h2 (HRef b) ''volumes'' = HRef bv"
    and bv: "length h1 \<le> bv" and
    lb: "lay h2 (HRef b) (JObj (genStep p n (getProp s ''when'') ''rebuild'' ?sc)) = Some cb" and
    db: "distinct cb" and scb: "set cb \<subseteq> set cw \<union> {length h1..<length h2}"
    unfolding g1 by blast
  have b2: "b < length h2" using lay_HRef_mem[OF lb] lay_bound(1)[OF lb] by blast
  have bv2: "bv < length h2" using lay_getProp_ref[OF lb gbv] lay_bound(1)[OF lb] by blast
  have len01: "length h \<le> length h1" using e1 by (rule extends_length)
  have len12: "length h1 \<le> length h2" using e2 by (rule extends_length)
  have lr2: "lay h2 (HRef r) (JObj (genStep p n (getProp s ''when'') ''restore'' ?sc)) = Some cr"
    using extends_lay(1)[OF e2 lr] by simp
  have grv2: "hGetProp h2 (HRef r) ''volumes'' = HRef rv"
    using extends_hGetProp[OF e2 r1, of "''volumes''"] grv by simp
  \<comment> \<open>the three calls of addStepVolumes\<close>
  from addStepVolumesH_lay[OF lr2 dr disjI2[OF genStep_volumes], of ?sc]
  obtain h3 cr' where
    run3: "addStepVolumesH h2 (HRef r) ?sc = Inr h3" and
    e3': "extends h2 h3 ({r} \<union> {x. HRef x = HRef rv})" and
    lr3: "lay h3 (HRef r) (wrapper p s n ''restore'') = Some cr'" and
    scr': "set cr' \<subseteq> set cr \<union> {length h2..<length h3}"
    unfolding grv2 genStep_wrapper[OF K disjI1[OF refl]] by blast
  have e3: "extends h2 h3 {r, rv}" using e3' by (rule extends_mono) auto
  have len23: "length h2 \<le> length h3" using e3 by (rule extends_length)
  have e03: "extends h h3 {r, rv}"
    using extends_trans[OF extends_trans[OF e1 e2] e3] by simp
  have la3: "lay h3 (HRef a) (JObj gs) = Some cs"
    using extends_lay(1)[OF e03 L'] bcs r rv by fastforce
  have g3: "\<And>k. hGetProp h3 (HRef a) k = hGetProp h (HRef a) k"
    using extends_hGetProp[OF e03 a] a r rv by auto
  have lb3: "lay h3 (HRef b) (JObj (genStep p n (getProp s ''when'') ''rebuild'' ?sc)) = Some cb"
  proof (rule extends_lay(1)[OF e3 lb])
    show "set cb \<inter> {r, rv} = {}"
      using scb r rv r1 rv1 lay_bound(1)[OF lw] by fastforce
  qed
  have gbv3: "hGetProp h3 (HRef b) ''volumes'' = HRef bv"
    using extends_hGetProp[OF e3 b2, of "''volumes''"] gbv b r1 rv1 by auto
  from ok el have vok: "nullish (fieldT gs ''volumes'') \<or> isArray (fieldT gs ''volumes'')"
    by (simp add: rewritableStep_def s getProp_obj)
  have wm: "JObj (putField gs ''volumes'' (JArr (elems (fieldT gs ''volumes'') @ mountList ?sc)))
            = withMounts s"
    by (simp add: s withMounts_obj mountList_cacheSet[OF K, unfolded s])
  from addStepVolumesH_lay[OF la3 D vok, of ?sc]
  obtain h4 ca' where
    run4: "addStepVolumesH h3 (HRef a) ?sc = Inr h4" and
    e4: "extends h3 h4 ?Xa" and
    la4: "lay h4 (HRef a) (withMounts s) = Some ca'" and
    sca': "set ca' \<subseteq> set cs \<union> {length h3..<length h4}"
    unfolding g3 wm by blast
  have len34: "length h3 \<le> length h4" using e4 by (rule extends_length)
  have bXa: "\<forall>x\<in>?Xa. x < length h" using Xcs bcs by blast
  have lr4: "lay h4 (HRef r) (wrapper p s n ''restore'') = Some cr'"
  proof (rule extends_lay(1)[OF e4 lr3])
    show "set cr' \<inter> ?Xa = {}"
    proof -
      have "x \<notin> ?Xa" if "x \<in> set cr'" for x
      proof (cases "x \<in> set cw")
        case True
        then show ?thesis using Xcw by blast
      next
        case False
        with that scr' scr len01 len12 have "length h \<le> x" by fastforce
        then show ?thesis using bXa by fastforce
      qed
      then show ?thesis by blast
    qed
  qed
  have lb4: "lay h4 (HRef b) (JObj (genStep p n (getProp s ''when'') ''rebuild'' ?sc)) = Some cb"
  proof (rule extends_lay(1)[OF e4 lb3])
    show "set cb \<inter> ?Xa = {}"
    proof -
      have "x \<notin> ?Xa" if "x \<in> set cb" for x
      proof (cases "x \<in> set cw")
        case True
        then show ?thesis using Xcw by blast
      next
        case False
        with that scb len01 have "length h \<le> x" by fastforce
        then show ?thesis using bXa by fastforce
      qed
      then show ?thesis by blast
    qed
  qed
  have b3: "b < length h3" using b2 len23 by simp
  have bnX: "b \<notin> ?Xa" using bXa b len01 by fastforce
  have gbv4: "hGetProp h4 (HRef b) ''volumes'' = HRef bv"
    using extends_hGetProp[OF e4 b3 bnX, of "''volumes''"] gbv3 by simp
  from addStepVolumesH_lay[OF lb4 db disjI2[OF genStep_volumes], of ?sc]
  obtain h5 cb' where
    run5: "addStepVolumesH h4 (HRef b) ?sc = Inr h5" and
    e5': "extends h4 h5 ({b} \<union> {x. HRef x = HRef bv})" and
    lb5: "lay h5 (HRef b) (wrapper p s n ''rebuild'') = Some cb'" and
    scb': "set cb' \<subseteq> set cb \<union> {length h4..<length h5}"
    unfolding gbv4 genStep_wrapper[OF K disjI2[OF refl]] by blast
  have e5: "extends h4 h5 {b, bv}" using e5' by (rule extends_mono) auto
  have len45: "length h4 \<le> length h5" using e5 by (rule extends_length)
  have lr5: "lay h5 (HRef r) (wrapper p s n ''restore'') = Some cr'"
  proof (rule extends_lay(1)[OF e5 lr4])
    show "set cr' \<inter> {b, bv} = {}"
    proof -
      have "x \<noteq> b \<and> x \<noteq> bv" if "x \<in> set cr'" for x
      proof -
        from that scr' scr have "x \<in> set cw \<or> x < length h1 \<or> length h2 \<le> x" by fastforce
        then show ?thesis using lay_bound(1)[OF lw] len01 b bv b2 bv2 by fastforce
      qed
      then show ?thesis by blast
    qed
  qed
  have la5: "lay h5 (HRef a) (withMounts s) = Some ca'"
  proof (rule extends_lay(1)[OF e5 la4])
    show "set ca' \<inter> {b, bv} = {}"
    proof -
      have "x \<noteq> b \<and> x \<noteq> bv" if "x \<in> set ca'" for x
      proof -
        from that sca' bcs have "x < length h \<or> length h3 \<le> x" by fastforce
        then show ?thesis using len01 len23 b bv b2 bv2 by fastforce
      qed
      then show ?thesis by blast
    qed
  qed
  \<comment> \<open>the sequence returned\<close>
  let ?h6 = "h5 @ [HArr [HRef r, HRef a, HRef b]]"
  have e6: "extends h5 ?h6 {}" by (rule extends_append)
  have l6: "layList ?h6 [HRef r, HRef a, HRef b] (expand p s) = Some (cr' @ ca' @ cb')"
    using extends_lay(1)[OF e6 lr5] extends_lay(1)[OF e6 la5] extends_lay(1)[OF e6 lb5] el
    by (simp add: expand_def nO)
  have run: "stepCallbackH p h (HRef a) used = Inr (?h6, HRef (length h5), ?used')"
    unfolding stepCallbackH_def
    using nn hho hia ne
    by (simp add: fe Let_def run1 g1 run2 run3 run4 run5 hAlloc_def)
  have isa: "hIsArray ?h6 (HRef (length h5))" by (simp add: hIsArray_def cell_def)
  have els: "hElems ?h6 (HRef (length h5)) = [HRef r, HRef a, HRef b]" by (simp add: hElems_def cell_def)
  have e06: "extends h ?h6 ({r, rv} \<union> ?Xa \<union> {b, bv})"
    using extends_trans[OF extends_trans[OF extends_trans[OF e03 e4] e5] e6] by simp
  have ex: "extends h ?h6 (set cs)"
  proof (rule extends_restrict[OF e06])
    show "\<forall>x\<in>{r, rv} \<union> ?Xa \<union> {b, bv}. x < length h \<longrightarrow> x \<in> set cs"
      using r rv b bv len01 Xcs by fastforce
  qed
  have sub: "set (cr' @ ca' @ cb') \<subseteq> set cs \<union> {length h..<length ?h6}"
  proof -
    have "x \<in> set cs \<or> (length h \<le> x \<and> x < length ?h6)" if "x \<in> set (cr' @ ca' @ cb')" for x
      using that scr' scr scb' scb sca' scw len01 len12 len23 len34 len45
        lay_bound(1)[OF lr5] lay_bound(1)[OF la5] lay_bound(1)[OF lb5]
      by (fastforce simp: subset_iff)
    then show ?thesis by fastforce
  qed
  show ?thesis using run isa els ex l6 sub su by blast
qed
lemma layList_unsupported:
  "layList h vs ts = Some c \<Longrightarrow> distinct c \<Longrightarrow> list_all unsupported ts \<Longrightarrow>
   list_all (unsupportedH h) vs"
proof (induction vs arbitrary: ts c)
  case Nil
  then show ?case by simp
next
  case (Cons v vs)
  from Cons.prems(1) obtain t ts' where ts: "ts = t # ts'" by (cases ts) auto
  from Cons.prems(1) ts obtain c1 c2 where l1: "lay h v t = Some c1" and l2: "layList h vs ts' = Some c2"
    and c: "c = c1 @ c2"
    by (auto split: option.splits)
  from Cons.prems(2) c have d1: "distinct c1" and d2: "distinct c2" by simp_all
  from Cons.prems(3) ts have u: "unsupported t" and rest: "list_all unsupported ts'" by simp_all
  have "unsupportedH h v" using lay_registry[OF l1 d1] u by (simp add: unsupportedH_def unsupported_def)
  with Cons.IH[OF l2 d2 rest] show ?case by simp
qed

lemma stepCallbackH_plain:
  assumes L: "lay h v t = Some cs" and D: "distinct cs" and ok: "rewritableStep t" and ne: "\<not> eligible t"
  shows "stepCallbackH p h v used = Inr (h, v, used) \<and> \<not> hIsArray h v"
proof -
  from ok have "\<not> isArray t" "\<not> nullish t" by (simp_all add: rewritableStep_def)
  with lay_isArray[OF L] lay_nullish[OF L] have na: "\<not> hIsArray h v" and nn: "\<not> hNullish v" by simp_all
  from ok ne
  have c: "\<not> hasOwn t ''caches'' \<or> \<not> isArray (getProp t ''caches'') \<or> list_all unsupported (cachesOf t)"
    by (auto simp: rewritableStep_def eligible_def list_all_iff list_ex_iff)
  have "uncachedH h v"
  proof (cases "\<not> hasOwn t ''caches'' \<or> \<not> isArray (getProp t ''caches'')")
    case True
    from lay_getProp[OF L, of "''caches''"] obtain cc where
      lc: "lay h (hGetProp h v ''caches'') (getProp t ''caches'') = Some cc" by blast
    from True lay_hasOwn[OF L, of "''caches''"] lay_isArray[OF lc]
    show ?thesis using nn na by (auto simp: uncachedH_def)
  next
    case False
    then have ia: "isArray (getProp t ''caches'')" by simp
    from False c have un: "list_all unsupported (cachesOf t)" by simp
    from lay_getProp[OF L, of "''caches''"] D obtain cc where
      lc: "lay h (hGetProp h v ''caches'') (getProp t ''caches'') = Some cc" and dcc: "distinct cc" by blast
    from lay_elems[OF lc ia] obtain c0 x0 where
      l0: "layList h (hElems h (hGetProp h v ''caches'')) (cachesOf t) = Some c0" and "cc = x0 # c0"
      by (auto simp: cachesOf_def)
    with dcc have d0: "distinct c0" by simp
    have "list_all (unsupportedH h) (hElems h (hGetProp h v ''caches''))"
      using l0 d0 un by (rule layList_unsupported)
    then show ?thesis using nn na by (simp add: uncachedH_def)
  qed
  then show ?thesis using uncachedH_callback na by blast
qed

lemma flatMapStepsH_lay:
  assumes "layList h vs ts = Some cs" and "distinct cs" and "list_all rewritableStep ts"
    and "sameKinds used usedT"
  shows "\<exists>h' vs' c' used'. flatMapStepsH p h vs used = Inr (h', vs', used') \<and>
           extends h h' (set cs) \<and>
           layList h' vs' (concat (map (expand p) ts)) = Some c' \<and>
           set c' \<subseteq> set cs \<union> {length h..<length h'} \<and>
           sameKinds used' (usedBy usedT ts)"
  using assms
proof (induction vs arbitrary: ts cs h used usedT)
  case Nil
  then have "ts = []" by (cases ts) auto
  with Nil show ?case by (auto simp: usedBy_def extends_refl)
next
  case (Cons v vs)
  from Cons.prems(1) obtain t ts' where ts: "ts = t # ts'" by (cases ts) auto
  from Cons.prems(1) ts obtain c1 c2 where l1: "lay h v t = Some c1" and l2: "layList h vs ts' = Some c2"
    and cs: "cs = c1 @ c2"
    by (auto split: option.splits)
  from Cons.prems(2) cs have d1: "distinct c1" and d2: "distinct c2" and dj: "set c1 \<inter> set c2 = {}"
    by simp_all
  from Cons.prems(3) ts have ok: "rewritableStep t" and oks: "list_all rewritableStep ts'" by simp_all
  have b2: "\<forall>x\<in>set c2. x < length h" using lay_bound(2)[OF l2] .
  show ?case
  proof (cases "eligible t")
    case True
    from True obtain gs where "t = JObj gs" by (cases t) (auto simp: eligible_def hasOwn_def)
    with lay_JObj l1 obtain a where v: "v = HRef a" by blast
    from stepCallbackH_eligible[OF l1[unfolded v] d1 ok True Cons.prems(4), of p]
    obtain h1 res r b c1' used1 where
      run1: "stepCallbackH p h (HRef a) used = Inr (h1, res, used1)" and
      ia: "hIsArray h1 res" and el: "hElems h1 res = [r, HRef a, b]" and
      e1: "extends h h1 (set c1)" and
      l1': "layList h1 [r, HRef a, b] (expand p t) = Some c1'" and
      s1: "set c1' \<subseteq> set c1 \<union> {length h..<length h1}" and
      u1: "sameKinds used1 (usedBy usedT [t])" by blast
    have l2h1: "layList h1 vs ts' = Some c2" using extends_lay(2)[OF e1 l2] dj by blast
    from Cons.IH[OF l2h1 d2 oks u1]
    obtain h2 vs2 c2' used2 where
      run2: "flatMapStepsH p h1 vs used1 = Inr (h2, vs2, used2)" and
      e2: "extends h1 h2 (set c2)" and
      l2': "layList h2 vs2 (concat (map (expand p) ts')) = Some c2'" and
      s2: "set c2' \<subseteq> set c2 \<union> {length h1..<length h2}" and
      u2: "sameKinds used2 (usedBy (usedBy usedT [t]) ts')" by blast
    have len1: "length h \<le> length h1" using e1 by (rule extends_length)
    have len2: "length h1 \<le> length h2" using e2 by (rule extends_length)
    have "set c1' \<inter> set c2 = {}" using s1 dj b2 by fastforce
    then have l1h2: "layList h2 [r, HRef a, b] (expand p t) = Some c1'"
      using extends_lay(2)[OF e2 l1'] by blast
    have run: "flatMapStepsH p h (v # vs) used = Inr (h2, [r, HRef a, b] @ vs2, used2)"
      using ia by (simp add: v run1 run2 el)
    have ex: "extends h h2 (set cs)" using extends_trans[OF e1 e2] by (simp add: cs)
    have ll: "layList h2 ([r, HRef a, b] @ vs2) (concat (map (expand p) ts)) = Some (c1' @ c2')"
      using layList_append[OF l1h2 l2'] by (simp add: ts)
    have sub: "set (c1' @ c2') \<subseteq> set cs \<union> {length h..<length h2}"
      using s1 s2 len1 len2 by (fastforce simp: cs)
    have uu: "sameKinds used2 (usedBy usedT ts)" using u2 usedBy_Cons[of usedT t ts'] by (simp add: ts)
    show ?thesis using run ex ll sub uu by blast
  next
    case False
    from stepCallbackH_plain[OF l1 d1 ok False, of p used]
    have run1: "stepCallbackH p h v used = Inr (h, v, used)" and na: "\<not> hIsArray h v" by simp_all
    from Cons.IH[OF l2 d2 oks Cons.prems(4)]
    obtain h2 vs2 c2' used2 where
      run2: "flatMapStepsH p h vs used = Inr (h2, vs2, used2)" and
      e2: "extends h h2 (set c2)" and
      l2': "layList h2 vs2 (concat (map (expand p) ts')) = Some c2'" and
      s2: "set c2' \<subseteq> set c2 \<union> {length h..<length h2}" and
      u2: "sameKinds used2 (usedBy usedT ts')" by blast
    have l1h2: "lay h2 v t = Some c1" using extends_lay(1)[OF e2 l1] dj by blast
    have run: "flatMapStepsH p h (v # vs) used = Inr (h2, v # vs2, used2)"
      using na by (simp add: run1 run2)
    have ex: "extends h h2 (set cs)" using extends_mono[OF e2, of "set cs"] by (simp add: cs)
    have ll: "layList h2 (v # vs2) (concat (map (expand p) ts)) = Some (c1 @ c2')"
      using l1h2 l2' False by (simp add: ts expand_def)
    have sub: "set (c1 @ c2') \<subseteq> set cs \<union> {length h..<length h2}"
      using s2 by (fastforce simp: cs)
    have "usedBy usedT [t] = usedT" using False by (simp add: usedBy_def)
    then have uu: "sameKinds used2 (usedBy usedT ts)" using u2 usedBy_Cons[of usedT t ts'] by (simp add: ts)
    show ?thesis using run ex ll sub uu by blast
  qed
qed
lemma delFirst_putField_same: "delFirst k (putField fs k x) = delFirst k fs"
  by (induction fs) auto

lemma fieldH_putField: "fieldH (putField fs k x) k' = (if k' = k then x else fieldH fs k')"
  by (simp add: fieldH_def map_of_putField)

lemma fieldT_putField: "fieldT (putField gs k x) k' = (if k' = k then x else fieldT gs k')"
  by (simp add: fieldT_def map_of_putField)

lemma createCacheVolumesH_usedBy:
  assumes "sameKinds used (usedBy [] steps)"
  shows "createCacheVolumesH h used = hStoreList h (tempVolumes steps)"
proof -
  have "filter (\<lambda>(cache, path). HStr cache \<in> set used \<and> rooted path) cacheMap
        = filter (\<lambda>(cache, path). setHas (usedBy [] steps) (JStr cache) \<and> rooted path) cacheMap"
    by (rule filter_cong) (use assms in \<open>auto simp: sameKinds_def setHas_str\<close>)
  then have "createCacheVolumesH h used = hStoreList h (createCacheVolumes (usedBy [] steps))"
    by (simp add: createCacheVolumesH_def createCacheVolumes_def)
  then show ?thesis by (simp add: createCacheVolumes_usedBy)
qed

lemma push_volumes_lay:
  assumes ad: "ad < length h5" and had: "h5 ! ad = HObj (putField fs ''volumes'' (HRef av))"
    and av: "av < length h5" and hav: "h5 ! av = HArr old" and ne: "av \<noteq> ad"
    and lO: "layList h5 old oldT = Some cO" and avO: "av \<notin> set cO"
    and lR: "layFields h5 (delFirst ''volumes'' fs) (delFirst ''volumes'' gs) = Some cR"
    and avR: "av \<notin> set cR" and ks: "map fst fs = map fst gs"
  shows "\<exists>h6 hv h7 h8 tv h9 c9.
           hStore h5 hostT = (h6, hv) \<and>
           hPush w h6 (hGetProp h6 (HRef ad) ''volumes'') [hv] = Inr h7 \<and>
           hStoreList h7 temps = (h8, tv) \<and>
           hPush w h8 (hGetProp h8 (HRef ad) ''volumes'') tv = Inr h9 \<and>
           lay h9 (HRef ad) (JObj (putField gs ''volumes'' (JArr (oldT @ hostT # temps)))) = Some c9"
proof -
  obtain h6 hv where s6: "hStore h5 hostT = (h6, hv)" by (cases "hStore h5 hostT")
  from hStore_lay(1)[OF s6] obtain hs6 ch where h6: "h6 = h5 @ hs6" and lh: "lay h6 hv hostT = Some ch"
    and bh: "\<forall>x\<in>set ch. length h5 \<le> x" by blast
  have g6: "hGetProp h6 (HRef ad) ''volumes'' = HRef av"
    using ad had by (simp add: hGetProp_def cell_def h6 nth_append map_of_putField)
  have c6: "cell h6 (HRef av) = Some (HArr old)" using av hav by (simp add: cell_def h6 nth_append)
  let ?h7 = "h6[av := HArr (old @ [hv])]"
  have p7: "hPush w h6 (hGetProp h6 (HRef ad) ''volumes'') [hv] = Inr ?h7"
    by (simp add: g6 hPush_def c6)
  obtain h8 tv where s8: "hStoreList ?h7 temps = (h8, tv)" by (cases "hStoreList ?h7 temps")
  from hStore_lay(2)[OF s8] obtain hs8 ct where h8: "h8 = ?h7 @ hs8" and lt: "layList h8 tv temps = Some ct"
    and bt: "\<forall>x\<in>set ct. length ?h7 \<le> x" by blast
  have g8: "hGetProp h8 (HRef ad) ''volumes'' = HRef av"
    using ad had ne by (simp add: hGetProp_def cell_def h8 h6 nth_append map_of_putField)
  have c8: "cell h8 (HRef av) = Some (HArr (old @ [hv]))" using av by (simp add: cell_def h8 h6 nth_append)
  let ?h9 = "h8[av := HArr ((old @ [hv]) @ tv)]"
  have p9: "hPush w h8 (hGetProp h8 (HRef ad) ''volumes'') tv = Inr ?h9"
    by (simp add: g8 hPush_def c8)
  have e59: "extends h5 ?h9 {av}" by (simp add: extends_def h8 h6 nth_append)
  have e69: "extends h6 ?h9 {av}" by (simp add: extends_def h8 nth_append)
  have e89: "extends h8 ?h9 {av}" by (simp add: extends_def)
  have lR9: "layFields ?h9 (delFirst ''volumes'' fs) (delFirst ''volumes'' gs) = Some cR"
    using extends_lay(3)[OF e59 lR] avR by simp
  have lO9: "layList ?h9 old oldT = Some cO" using extends_lay(2)[OF e59 lO] avO by simp
  have "av \<notin> set ch" using bh av by auto
  then have lh9: "lay ?h9 hv hostT = Some ch" using extends_lay(1)[OF e69 lh] by simp
  have "av \<notin> set ct" using bt av by (auto simp: h6)
  then have lt9: "layList ?h9 tv temps = Some ct" using extends_lay(2)[OF e89 lt] by simp
  have "layList ?h9 (hv # tv) (hostT # temps) = Some (ch @ ct)" using lh9 lt9 by simp
  from layList_append[OF lO9 this] have "layList ?h9 ((old @ [hv]) @ tv) (oldT @ hostT # temps) = Some (cO @ ch @ ct)"
    by simp
  then have la: "lay ?h9 (HRef av) (JArr (oldT @ hostT # temps)) = Some (av # cO @ ch @ ct)"
    using av by (intro lay_JArr_intro) (simp_all add: h8 h6)
  from layFields_join[OF lR9 ks la] obtain c' where
    j: "layFields ?h9 (putField fs ''volumes'' (HRef av))
          (putField gs ''volumes'' (JArr (oldT @ hostT # temps))) = Some c'" by blast
  have h9ad: "?h9 ! ad = HObj (putField fs ''volumes'' (HRef av))"
    using ad had ne by (simp add: h8 h6 nth_append)
  have "lay ?h9 (HRef ad) (JObj (putField gs ''volumes'' (JArr (oldT @ hostT # temps)))) = Some (ad # c')"
    using ad j h9ad by (intro lay_JObj_intro) (simp_all add: h8 h6)
  with s6 p7 s8 p9 show ?thesis by blast
qed
lemma sameKinds_Nil: "sameKinds [] []"
  by (simp add: sameKinds_def)

lemma docProcessorH_lay:
  assumes L: "lay h d doc = Some cs" and D: "distinct cs" and ok: "rewritable doc"
  shows "\<exists>h' c'. docProcessorH p h d = Inr (h', d) \<and> lay h' d (rewritten p doc) = Some c'"
proof -
  let ?S = "''steps''" and ?V = "''volumes''"
  let ?steps = "stepsOf doc"
  let ?EX = "concat (map (expand p) ?steps)"
  from ok have kind: "getProp doc ''kind'' = JStr ''pipeline''" and hs: "hasOwn doc ?S"
    and ia: "isArray (getProp doc ?S)" and nho: "\<not> hasOwn doc ''hasOwnProperty''"
    and oks: "list_all rewritableStep ?steps"
    and vok: "list_ex eligible ?steps \<longrightarrow> nullish (getProp doc ?V) \<or> isArray (getProp doc ?V)"
    by (simp_all add: rewritable_def)
  from kind obtain gs where doc: "doc = JObj gs" by (cases doc) (auto simp: getProp_def)
  from lay_JObj[OF L[unfolded doc]] obtain ad fs c where d: "d = HRef ad" and ad: "ad < length h"
    and had: "h ! ad = HObj fs" and lf: "layFields h fs gs = Some c" and cs: "cs = ad # c" by blast
  from D cs have ac: "ad \<notin> set c" and dc: "distinct c" by simp_all
  have G: "\<And>k. hGetProp h d k = fieldH fs k" unfolding d using ad had by (rule hGetProp_obj)
  have T: "\<And>k. getProp doc k = fieldT gs k" by (simp add: doc getProp_obj)
  have ks: "map fst fs = map fst gs" using lf by (rule layFields_keys)
  \<comment> \<open>the tests of line 81\<close>
  have nn: "\<not> hNullish d" by (simp add: d hNullish_def)
  from lay_getProp[OF L, of "''kind''"] obtain ck where
    "lay h (hGetProp h d ''kind'') (getProp doc ''kind'') = Some ck" by blast
  with kind have hk: "hGetProp h d ''kind'' = HStr ''pipeline''" using lay_JStr by simp
  have hnho: "\<not> hHasOwn h d ''hasOwnProperty''" using lay_hasOwn[OF L] nho by simp
  have hhs: "hHasOwn h d ?S" using lay_hasOwn[OF L] hs by simp
  \<comment> \<open>the steps\<close>
  from layFields_split[OF lf, of ?S] dc obtain c1 cS where
    l1: "layFields h (delFirst ?S fs) (delFirst ?S gs) = Some c1" and
    lS: "lay h (fieldH fs ?S) (fieldT gs ?S) = Some cS" and
    sc: "set c = set c1 \<union> set cS" and d1: "distinct c1" and dS: "distinct cS"
    and dj1: "set c1 \<inter> set cS = {}" by blast
  from ia have iaT: "isArray (fieldT gs ?S)" by (simp add: T)
  from lay_elems[OF lS iaT] obtain as cE where vS: "fieldH fs ?S = HRef as"
    and lE: "layList h (hElems h (fieldH fs ?S)) ?steps = Some cE" and cS: "cS = as # cE"
    by (auto simp: stepsOf_def T)
  from dS cS have dE: "distinct cE" by simp
  have sE: "set cE \<subseteq> set cS" using cS by auto
  have hia: "hIsArray h (hGetProp h d ?S)" using lay_isArray[OF lS] iaT by (simp add: G)
  have nns: "\<not> hNullish (hGetProp h d ?S)" by (simp add: G vS hNullish_def)
  from flatMapStepsH_lay[OF lE dE oks sameKinds_Nil, of p]
  obtain h1 vs' cE' used1 where
    run1: "flatMapStepsH p h (hElems h (fieldH fs ?S)) [] = Inr (h1, vs', used1)" and
    e1: "extends h h1 (set cE)" and
    lE': "layList h1 vs' ?EX = Some cE'" and
    sE': "set cE' \<subseteq> set cE \<union> {length h..<length h1}" and
    u1: "sameKinds used1 (usedBy [] ?steps)" by blast
  have len1: "length h \<le> length h1" using e1 by (rule extends_length)
  let ?n1 = "length h1"
  let ?h2 = "h1 @ [HArr vs']"
  let ?fs3 = "putField fs ?S (HRef ?n1)"
  let ?gs3 = "putField gs ?S (JArr ?EX)"
  let ?h3 = "?h2[ad := HObj ?fs3]"
  have adE: "ad \<notin> set cE" using ac sc sE by auto
  have h1ad: "h1 ! ad = HObj fs" using extends_nth[OF e1 ad adE] had by simp
  have c2: "cell ?h2 d = Some (HObj fs)" using ad len1 h1ad by (simp add: d cell_def nth_append)
  have s3: "hSetProp ?h2 d ?S (HRef ?n1) = ?h3" using c2 by (simp add: hSetProp_def d)
  have e13: "extends h1 ?h3 {ad}" by (simp add: extends_def nth_append)
  have e3: "extends h ?h3 (set cE \<union> {ad})" using extends_trans[OF e1 e13] .
  have len3: "length h \<le> length ?h3" using len1 by simp
  have ad3: "ad < length ?h3" using ad len1 by simp
  have h3ad: "?h3 ! ad = HObj ?fs3" using ad len1 by simp
  have ks3: "map fst ?fs3 = map fst ?gs3" using ks by (rule map_fst_putField)
  have adE': "ad \<notin> set cE'" using sE' adE ad by auto
  have lE3: "layList ?h3 vs' ?EX = Some cE'" using extends_lay(2)[OF e13 lE'] adE' by simp
  have n1ad: "?n1 \<noteq> ad" using ad len1 by simp
  have larr: "lay ?h3 (HRef ?n1) (JArr ?EX) = Some (?n1 # cE')"
    using lE3 n1ad by (intro lay_JArr_intro) simp_all
  have used1: "used1 = [] \<longleftrightarrow> \<not> list_ex eligible ?steps"
    using u1 by (simp add: sameKinds_def usedBy_Nil_iff)
  show ?thesis
  proof (cases "list_ex eligible ?steps")
    case False
    with used1 have u0: "used1 = []" by simp
    have run: "docProcessorH p h d = Inr (?h3, d)"
      unfolding docProcessorH_def
      using nn hk hnho hhs nns hia by (simp add: G vS[symmetric] run1 hAlloc_def s3[unfolded G] u0)
    have "set c1 \<inter> (set cE \<union> {ad}) = {}" using dj1 sE ac sc by auto
    then have l13: "layFields ?h3 (delFirst ?S fs) (delFirst ?S gs) = Some c1"
      using extends_lay(3)[OF e3 l1] by simp
    from layFields_join[OF l13 ks larr] obtain c3 where
      j: "layFields ?h3 ?fs3 ?gs3 = Some c3" by blast
    have l3: "lay ?h3 d (JObj ?gs3) = Some (ad # c3)"
      unfolding d using ad3 h3ad j by (rule lay_JObj_intro)
    have "?EX = ?steps" using False by (rule expand_plain)
    moreover have "map_of gs ?S = Some (JArr ?steps)"
      using ia hs
      by (cases "getProp doc ?S")
         (auto simp: doc getProp_def hasOwn_def isArray_def stepsOf_def elems_def split: option.splits)
    ultimately have "?gs3 = gs" by (simp add: putField_same)
    then have "JObj ?gs3 = rewritten p doc" using False by (simp add: rewritten_def doc)
    with run l3 show ?thesis by auto
  next
    case True
    with used1 have u0: "0 < length used1" by simp
    from layFields_split[OF l1, of ?V] d1 obtain c11 cV where
      l11: "layFields h (delFirst ?V (delFirst ?S fs)) (delFirst ?V (delFirst ?S gs)) = Some c11" and
      lV: "lay h (fieldH fs ?V) (fieldT gs ?V) = Some cV" and
      sc1: "set c1 = set c11 \<union> set cV" and dV: "distinct cV"
      and dj11: "set c11 \<inter> set cV = {}"
      by (auto simp: fieldH_delFirst fieldT_delFirst)
    have g3: "hGetProp ?h3 d ?V = fieldH fs ?V"
      using ad3 h3ad by (simp add: d hGetProp_obj fieldH_putField)
    \<comment> \<open>the rest of the document in the store after line 89\<close>
    have "set c11 \<inter> (set cE \<union> {ad}) = {}" using dj1 sE ac sc sc1 by auto
    then have l113: "layFields ?h3 (delFirst ?S (delFirst ?V fs)) (delFirst ?S (delFirst ?V gs)) = Some c11"
      using extends_lay(3)[OF e3 l11] by (simp add: delFirst_commute)
    from layFields_join[OF l113 map_fst_delFirst[OF ks] larr] obtain cR where
      lR: "layFields ?h3 (delFirst ?V ?fs3) (delFirst ?V ?gs3) = Some cR" and
      sR: "set cR = set c11 \<union> set (?n1 # cE')"
      by (auto simp: delFirst_putField)
    have "set cV \<inter> (set cE \<union> {ad}) = {}" using dj1 sE ac sc sc1 by auto
    then have lV3: "lay ?h3 (fieldH fs ?V) (fieldT gs ?V) = Some cV"
      using extends_lay(1)[OF e3 lV] by simp
    from vok True have vokT: "nullish (fieldT gs ?V) \<or> isArray (fieldT gs ?V)" by (simp add: T)
    have rw: "rewritten p doc
              = JObj (putField ?gs3 ?V (JArr (elems (fieldT gs ?V) @ hostVolume p # tempVolumes ?steps)))"
      using True by (simp add: rewritten_def doc setProp_def getProp_obj)
    have tv: "\<And>h. createCacheVolumesH h used1 = hStoreList h (tempVolumes ?steps)"
      using u1 by (rule createCacheVolumesH_usedBy)
    show ?thesis
    proof (cases "nullish (fieldT gs ?V)")
      case True
      with lay_nullish[OF lV] have hn: "hNullish (fieldH fs ?V)" by simp
      from True have el: "elems (fieldT gs ?V) = []" by (auto simp: nullish_def elems_def)
      let ?n3 = "Suc (length h1)"
      let ?h4 = "?h3 @ [HArr []]"
      let ?h5 = "?h4[ad := HObj (putField ?fs3 ?V (HRef ?n3))]"
      have c4: "cell ?h4 d = Some (HObj ?fs3)" using ad3 h3ad by (simp add: d cell_def nth_append)
      have s5: "hSetProp ?h4 d ?V (HRef ?n3) = ?h5" using c4 by (simp add: hSetProp_def d)
      have e35: "extends ?h3 ?h5 {ad}" by (simp add: extends_def nth_append)
      have adR: "ad \<notin> set cR" using sR adE' n1ad \<open>set c11 \<inter> (set cE \<union> {ad}) = {}\<close> by auto
      have lR5: "layFields ?h5 (delFirst ?V ?fs3) (delFirst ?V ?gs3) = Some cR"
        using extends_lay(3)[OF e35 lR] adR by simp
      have n3R: "?n3 \<notin> set cR" using lay_bound(3)[OF lR] by auto
      have p: "ad < length ?h5" "?h5 ! ad = HObj (putField ?fs3 ?V (HRef ?n3))" "?n3 < length ?h5"
        "?h5 ! ?n3 = HArr []" "?n3 \<noteq> ad"
        using ad3 by (simp_all add: nth_append)
      have lO: "layList ?h5 [] [] = Some []" by simp
      from push_volumes_lay[OF p lO _ lR5 n3R ks3, of "hostVolume p" "''doc.volumes.push''" "tempVolumes ?steps"]
      obtain h6 hv h7 h8 tvs h9 c9 where
        r6: "hStore ?h5 (hostVolume p) = (h6, hv)" and
        r7: "hPush ''doc.volumes.push'' h6 (hGetProp h6 (HRef ad) ?V) [hv] = Inr h7" and
        r8: "hStoreList h7 (tempVolumes ?steps) = (h8, tvs)" and
        r9: "hPush ''doc.volumes.push'' h8 (hGetProp h8 (HRef ad) ?V) tvs = Inr h9" and
        l9: "lay h9 (HRef ad) (JObj (putField ?gs3 ?V (JArr ([] @ hostVolume p # tempVolumes ?steps)))) = Some c9"
        by auto
      have run: "docProcessorH p h d = Inr (h9, d)"
        unfolding docProcessorH_def
        using nn hk hnho hhs nns hia u0 hn
        by (simp add: G vS[symmetric] run1 hAlloc_def s3[unfolded G] Let_def g3[unfolded G]
            s5[unfolded G] r6[unfolded hostVolume_def] r7[unfolded d[symmetric]] tv r8 r9[unfolded d[symmetric]]
            del: hStore.simps)
      show ?thesis using run l9 by (simp add: rw el d)
    next
      case False
      with vokT have iaV: "isArray (fieldT gs ?V)" by simp
      from lay_elems[OF lV3 iaV] obtain av cO where vV: "fieldH fs ?V = HRef av" and av: "av < length ?h3"
        and hav: "?h3 ! av = HArr (hElems ?h3 (fieldH fs ?V))"
        and lO: "layList ?h3 (hElems ?h3 (fieldH fs ?V)) (elems (fieldT gs ?V)) = Some cO"
        and cV: "cV = av # cO" by blast
      let ?old = "hElems ?h3 (fieldH fs ?V)"
      have nnv: "\<not> hNullish (fieldH fs ?V)" by (simp add: vV hNullish_def)
      let ?h5 = "?h2[ad := HObj (putField ?fs3 ?V (HRef av))]"
      have c4: "cell ?h3 d = Some (HObj ?fs3)" using ad3 h3ad by (simp add: d cell_def)
      have s5: "hSetProp ?h3 d ?V (HRef av) = ?h5" using c4 by (simp add: hSetProp_def d)
      have e35: "extends ?h3 ?h5 {ad}" by (simp add: extends_def)
      have adR: "ad \<notin> set cR" using sR adE' n1ad \<open>set c11 \<inter> (set cE \<union> {ad}) = {}\<close> by auto
      have lR5: "layFields ?h5 (delFirst ?V ?fs3) (delFirst ?V ?gs3) = Some cR"
        using extends_lay(3)[OF e35 lR] adR by simp
      have avc: "av \<in> set c" using cV sc sc1 by auto
      with ac have avad: "av \<noteq> ad" by auto
      have avh: "av < length h" using lay_HRef_mem[OF lV[unfolded vV]] lay_bound(1)[OF lV] by blast
      have avR: "av \<notin> set cR"
      proof -
        have "av \<notin> set c11" using dj11 cV by auto
        moreover have "av \<noteq> ?n1" using avh len1 by simp
        moreover have "av \<notin> set cE'"
        proof
          assume "av \<in> set cE'"
          with sE' avh have "av \<in> set cE" by auto
          with sE dj1 sc1 cV show False by auto
        qed
        ultimately show ?thesis using sR by simp
      qed
      from dV cV have avO: "av \<notin> set cO" by simp
      have adO: "ad \<notin> set cO" using cV sc sc1 ac by auto
      have lO5: "layList ?h5 ?old (elems (fieldT gs ?V)) = Some cO"
        using extends_lay(2)[OF e35 lO] adO by simp
      have p: "ad < length ?h5" "?h5 ! ad = HObj (putField ?fs3 ?V (HRef av))" "av < length ?h5"
        "?h5 ! av = HArr ?old" "av \<noteq> ad"
        using ad3 av hav avad by simp_all
      from push_volumes_lay[OF p lO5 avO lR5 avR ks3, of "hostVolume p" "''doc.volumes.push''" "tempVolumes ?steps"]
      obtain h6 hv h7 h8 tvs h9 c9 where
        r6: "hStore ?h5 (hostVolume p) = (h6, hv)" and
        r7: "hPush ''doc.volumes.push'' h6 (hGetProp h6 (HRef ad) ?V) [hv] = Inr h7" and
        r8: "hStoreList h7 (tempVolumes ?steps) = (h8, tvs)" and
        r9: "hPush ''doc.volumes.push'' h8 (hGetProp h8 (HRef ad) ?V) tvs = Inr h9" and
        l9: "lay h9 (HRef ad)
               (JObj (putField ?gs3 ?V (JArr (elems (fieldT gs ?V) @ hostVolume p # tempVolumes ?steps)))) = Some c9"
        by auto
      have run: "docProcessorH p h d = Inr (h9, d)"
        unfolding docProcessorH_def
        using nn hk hnho hhs nns hia u0 nnv
        by (simp add: G vS[symmetric] run1 hAlloc_def s3[unfolded G] Let_def g3[unfolded G]
            s5[unfolded G vV[symmetric]] r6[unfolded hostVolume_def vV[symmetric]]
            r7[unfolded d[symmetric]] tv r8 r9[unfolded d[symmetric]]
            del: hStore.simps)
      show ?thesis using run l9 by (simp add: rw d)
    qed
  qed
qed


subsection \<open>The processor on a document without sharing\<close>

lemma unshared_lay: "unshared h v t \<longleftrightarrow> (\<exists>cs. lay h v t = Some cs \<and> distinct cs)"
  by (auto simp: unshared_def split: option.splits)

lemma unshared_denotes: "unshared h v t \<Longrightarrow> denotes h v t"
  by (auto simp: unshared_lay denotes_def)

lemma hStore_unshared: "hStore h t = (h', v) \<Longrightarrow> unshared h' v t"
  using hStore_lay(1)[of h t h' v] by (auto simp: unshared_lay)

text \<open>
  On a document without sharing, the processor on the store writes the
  closed form \<open>rewritten\<close>, which for a document of the data model is what
  the processor on values returns.
\<close>

lemma pipelineOk_rewritable: "pipelineOk doc \<Longrightarrow> rewritable doc"
  by (auto simp: pipelineOk_def rewritable_def stepOk_def rewritableStep_def isObject_def
      nullish_def isArray_def list_all_iff split: jsval.splits)




lemma docProcessorH_rewritten:
  assumes "unshared h d doc" and "rewritable doc"
  shows "\<exists>h'. docProcessorH p h d = Inr (h', d) \<and> denotes h' d (rewritten p doc)"
proof -
  from assms(1) obtain cs where "lay h d doc = Some cs" and "distinct cs" by (auto simp: unshared_lay)
  from docProcessorH_lay[OF this assms(2), of p] show ?thesis by (auto simp: denotes_def)
qed

lemma docProcessorH_docProcessor:
  assumes "unshared h d doc" and "pipelineOk doc"
  shows "\<exists>h' doc'. docProcessorH p h d = Inr (h', d) \<and> docProcessor p doc = Inr doc' \<and> denotes h' d doc'"
  using docProcessorH_rewritten[OF assms(1) pipelineOk_rewritable[OF assms(2)], of p]
    docProcessor_pipeline[OF assms(2), of p] by blast

lemma yields_rewritten:
  assumes "unshared h d doc" and "rewritable doc"
  shows "yields (docProcessorH p h d) (rewritten p doc)"
  using docProcessorH_rewritten[OF assms, of p] by (auto simp: yields_def)

lemma processFresh_rewritten:
  assumes "rewritable doc"
  shows "yields (processFresh p doc) (rewritten p doc)"
proof -
  obtain h d where s: "hStore [] doc = (h, d)" by (cases "hStore [] doc")
  from yields_rewritten[OF hStore_unshared[OF s] assms, of p] show ?thesis
    by (simp add: processFresh_def s)
qed

lemma docProcessorH_uncached_denotes:
  assumes k: "hGetProp h d ''kind'' = HStr ''pipeline''"
    and s: "cell h (hGetProp h d ''steps'') = Some (HArr steps)"
    and u: "unshared h d doc"
  shows "denotes (hSetProp (h @ [HArr steps]) d ''steps'' (HRef (length h))) d doc"
proof -
  from u obtain cs where L: "lay h d doc = Some cs" and D: "distinct cs" by (auto simp: unshared_lay)
  from k obtain ad where d: "d = HRef ad" by (cases d) (auto simp: hGetProp_def cell_def)
  from k d obtain fs where ad: "ad < length h" and had: "h ! ad = HObj fs"
    by (auto simp: hGetProp_def cell_def split: if_splits hobj.splits)
  from L d ad had obtain gs where doc: "doc = JObj gs"
    by (cases doc) (auto simp: cell_def split: if_splits)
  from lay_JObj[OF L[unfolded doc]] d had obtain c where lf: "layFields h fs gs = Some c" and cs: "cs = ad # c"
    by auto
  from D cs have ac: "ad \<notin> set c" and dc: "distinct c" by simp_all
  have ks: "map fst fs = map fst gs" using lf by (rule layFields_keys)
  from layFields_split[OF lf, of "''steps''"] dc obtain c1 cS where
    l1: "layFields h (delFirst ''steps'' fs) (delFirst ''steps'' gs) = Some c1" and
    lS: "lay h (fieldH fs ''steps'') (fieldT gs ''steps'') = Some cS" and
    sc: "set c = set c1 \<union> set cS" by blast
  have g: "hGetProp h d ''steps'' = fieldH fs ''steps''" unfolding d using ad had by (rule hGetProp_obj)
  from s g obtain as where vS: "fieldH fs ''steps'' = HRef as" and as: "as < length h" and has: "h ! as = HArr steps"
    by (auto simp: cell_Some_iff)
  from lS vS as has obtain ts where tS: "fieldT gs ''steps'' = JArr ts"
    by (cases "fieldT gs ''steps''") (auto simp: cell_def split: if_splits)
  from lay_JArr[OF lS[unfolded tS]] vS has obtain cE where lE: "layList h steps ts = Some cE" and cSE: "cS = as # cE"
    by auto
  let ?n = "length h"
  let ?h' = "(h @ [HArr steps])[ad := HObj (putField fs ''steps'' (HRef ?n))]"
  have c2: "cell (h @ [HArr steps]) d = Some (HObj fs)" using ad had by (simp add: d cell_def nth_append)
  have s3: "hSetProp (h @ [HArr steps]) d ''steps'' (HRef ?n) = ?h'" using c2 by (simp add: hSetProp_def d)
  have e: "extends h ?h' {ad}" by (simp add: extends_def nth_append)
  have l1': "layFields ?h' (delFirst ''steps'' fs) (delFirst ''steps'' gs) = Some c1"
    using extends_lay(3)[OF e l1] ac sc by simp
  have lE': "layList ?h' steps ts = Some cE" using extends_lay(2)[OF e lE] ac sc cSE by simp
  have la: "lay ?h' (HRef ?n) (JArr ts) = Some (?n # cE)"
    using lE' ad by (intro lay_JArr_intro) simp_all
  from layFields_join[OF l1' ks la] obtain c' where
    j: "layFields ?h' (putField fs ''steps'' (HRef ?n)) (putField gs ''steps'' (JArr ts)) = Some c'" by blast
  have "map_of gs ''steps'' = Some (JArr ts)"
  proof -
    from vS have "map_of fs ''steps'' \<noteq> None" by (auto simp: fieldH_def split: option.splits)
    with layFields_map_of_None[OF lf, of "''steps''"] tS show ?thesis
      by (auto simp: fieldT_def split: option.splits)
  qed
  then have "putField gs ''steps'' (JArr ts) = gs" by (rule putField_same)
  with j have "layFields ?h' (putField fs ''steps'' (HRef ?n)) gs = Some c'" by simp
  then have "lay ?h' (HRef ad) (JObj gs) = Some (ad # c')"
    using ad by (intro lay_JObj_intro) simp_all
  then show ?thesis unfolding s3[unfolded d] d doc denotes_def by simp
qed

section \<open>Properties of the rewrite\<close>

subsection \<open>Expansion of the steps\<close>




subsection \<open>Volumes of the document\<close>




subsection \<open>Kinds with a relative path\<close>

text \<open>
  C3, as stated, fails in its last part: \<open>yarn\<close> has the relative path
  \<open>.yarn/cache\<close>, and for a step that requests it both generated steps list
  that path in \<open>settings.mount\<close>. Line 144 filters the registry by the
  requested kinds only; the test for a rooted path is in \<open>createCacheVolumes\<close>
  and \<open>createCacheMounts\<close> alone.
\<close>

theorem non_rooted_kind_counterexample:
  "(''yarn'', ''.yarn/cache'') \<in> set cacheMap \<and> \<not> rooted ''.yarn/cache'' \<and>
   docProcessor testPlugin yarnDoc =
     Inr (JObj
       [(''kind'', JStr ''pipeline''),
        (''steps'', JArr
          [JObj [(''name'', JStr ''build-cache-restore''),
                 (''image'', JStr ''foo''),
                 (''environment'', JObj []),
                 (''settings'', JObj [(''mount'', JArr [JStr ''.yarn/cache'']), (''restore'', JBool True)]),
                 (''volumes'', JArr [JObj [(''name'', JStr ''cache''), (''path'', JStr ''/tmp/cache'')]]),
                 (''when'', JUndefined)],
           JObj [(''name'', JStr ''build''),
                 (''caches'', JArr [JStr ''yarn'']),
                 (''volumes'', JArr [])],
           JObj [(''name'', JStr ''build-cache-rebuild''),
                 (''image'', JStr ''foo''),
                 (''environment'', JObj []),
                 (''settings'', JObj [(''mount'', JArr [JStr ''.yarn/cache'']), (''rebuild'', JBool True)]),
                 (''volumes'', JArr [JObj [(''name'', JStr ''cache''), (''path'', JStr ''/tmp/cache'')]]),
                 (''when'', JUndefined)]]),
        (''volumes'', JArr
          [JObj [(''name'', JStr ''cache''), (''host'', JObj [(''path'', JStr ''/tmp/cache'')])]])])"
  by code_simp

text \<open>
  C3, amended. A registry kind whose path is not rooted never is the name of
  an ephemeral volume or of a volume mount the plugin creates, whatever the
  set of caches. For a pipeline document of the data model, every document
  volume of that name
  in the output is a volume of the input document, and every volume mount of
  that name on a step of the output is a volume mount of a step of the input.
\<close>

theorem non_rooted_kind:
  assumes "(k, path) \<in> set cacheMap" and "\<not> rooted path" and "pipelineOk doc"
  shows "(\<forall>v\<in>set (createCacheVolumes caches). getProp v ''name'' \<noteq> JStr k) \<and>
         (\<forall>v\<in>set (createCacheMounts caches). getProp v ''name'' \<noteq> JStr k) \<and>
         (\<exists>doc'. docProcessor p doc = Inr doc' \<and>
            (\<forall>v\<in>set (elems (getProp doc' ''volumes'')).
                getProp v ''name'' = JStr k \<longrightarrow> v \<in> set (elems (getProp doc ''volumes''))) \<and>
            (\<forall>st\<in>set (stepsOf doc'). \<forall>v\<in>set (elems (getProp st ''volumes'')).
                getProp v ''name'' = JStr k \<longrightarrow>
                (\<exists>s\<in>set (stepsOf doc). v \<in> set (elems (getProp s ''volumes'')))))"
proof (intro conjI)
  show "\<forall>v\<in>set (createCacheVolumes caches). getProp v ''name'' \<noteq> JStr k"
    using createCacheVolumes_name[OF assms(1,2)] by blast
  show "\<forall>v\<in>set (createCacheMounts caches). getProp v ''name'' \<noteq> JStr k"
    using createCacheMounts_name[OF assms(1,2)] by blast
  have vols: "\<forall>v\<in>set (elems (getProp (rewritten p doc) ''volumes'')).
                getProp v ''name'' = JStr k \<longrightarrow> v \<in> set (elems (getProp doc ''volumes''))"
  proof (cases "list_ex eligible (stepsOf doc)")
    case False
    then show ?thesis by (simp add: rewritten_def)
  next
    case True
    have "getProp (hostVolume p) ''name'' \<noteq> JStr k"
      using cache_name[OF assms(1)] by (simp add: hostVolume_def getProp_def)
    then show ?thesis
      using rewritten_volumes[OF assms(3) True, of p] tempVolumes_name[OF assms(1,2)]
      by (auto simp: elems_def)
  qed
  have steps: "\<forall>st\<in>set (stepsOf (rewritten p doc)). \<forall>v\<in>set (elems (getProp st ''volumes'')).
                getProp v ''name'' = JStr k \<longrightarrow>
                (\<exists>s\<in>set (stepsOf doc). v \<in> set (elems (getProp s ''volumes'')))"
  proof (intro ballI impI)
    fix st v
    assume st: "st \<in> set (stepsOf (rewritten p doc))"
      and v: "v \<in> set (elems (getProp st ''volumes''))" and n: "getProp v ''name'' = JStr k"
    from st obtain s where s: "s \<in> set (stepsOf doc)" "st \<in> set (expand p s)"
      using rewritten_steps[OF assms(3), of p] by (auto simp: stepsOf_def elems_def)
    from assms(3) s(1) have "stepOk s" by (auto simp: pipelineOk_def list_all_iff)
    from expand_volumes[OF assms(1,2) this s(2) v n] s(1)
    show "\<exists>s\<in>set (stepsOf doc). v \<in> set (elems (getProp s ''volumes''))" by blast
  qed
  from docProcessor_pipeline[OF assms(3), of p] vols steps
  show "\<exists>doc'. docProcessor p doc = Inr doc' \<and>
            (\<forall>v\<in>set (elems (getProp doc' ''volumes'')).
                getProp v ''name'' = JStr k \<longrightarrow> v \<in> set (elems (getProp doc ''volumes''))) \<and>
            (\<forall>st\<in>set (stepsOf doc'). \<forall>v\<in>set (elems (getProp st ''volumes'')).
                getProp v ''name'' = JStr k \<longrightarrow>
                (\<exists>s\<in>set (stepsOf doc). v \<in> set (elems (getProp s ''volumes''))))"
    by blast
qed

theorem non_rooted_kind_witness:
  "(''yarn'', ''.yarn/cache'') \<in> set cacheMap \<and> \<not> rooted ''.yarn/cache'' \<and> pipelineOk sharedDoc \<and>
   list_all (\<lambda>v. getProp v ''name'' \<noteq> JStr ''yarn'')
     (createCacheVolumes [JStr ''npm'', JStr ''yarn'']) \<and>
   list_all (\<lambda>v. getProp v ''name'' \<noteq> JStr ''yarn'')
     (createCacheMounts [JStr ''npm'', JStr ''yarn'']) \<and>
   (\<exists>doc'. docProcessor testPlugin sharedDoc = Inr doc' \<and>
      list_all (\<lambda>v. getProp v ''name'' \<noteq> JStr ''yarn'') (elems (getProp doc' ''volumes'')) \<and>
      list_all (\<lambda>st. list_all (\<lambda>v. getProp v ''name'' \<noteq> JStr ''yarn'') (elems (getProp st ''volumes'')))
        (stepsOf doc'))"
proof -
  have h: "(''yarn'', ''.yarn/cache'') \<in> set cacheMap" "\<not> rooted ''.yarn/cache''" "pipelineOk sharedDoc"
    by code_simp+
  have i1: "\<forall>v\<in>set (elems (getProp sharedDoc ''volumes'')). getProp v ''name'' \<noteq> JStr ''yarn''"
    by code_simp
  have i2: "\<forall>s\<in>set (stepsOf sharedDoc). \<forall>v\<in>set (elems (getProp s ''volumes'')). getProp v ''name'' \<noteq> JStr ''yarn''"
    by code_simp
  note t = non_rooted_kind[OF h, of "[JStr ''npm'', JStr ''yarn'']" testPlugin]
  from t have a: "list_all (\<lambda>v. getProp v ''name'' \<noteq> JStr ''yarn'')
     (createCacheVolumes [JStr ''npm'', JStr ''yarn''])"
    and b: "list_all (\<lambda>v. getProp v ''name'' \<noteq> JStr ''yarn'')
     (createCacheMounts [JStr ''npm'', JStr ''yarn''])"
    by (simp_all add: list_all_iff)
  from t obtain doc' where d: "docProcessor testPlugin sharedDoc = Inr doc'"
    and v: "\<forall>v\<in>set (elems (getProp doc' ''volumes'')).
                getProp v ''name'' = JStr ''yarn'' \<longrightarrow> v \<in> set (elems (getProp sharedDoc ''volumes''))"
    and s: "\<forall>st\<in>set (stepsOf doc'). \<forall>v\<in>set (elems (getProp st ''volumes'')).
                getProp v ''name'' = JStr ''yarn'' \<longrightarrow>
                (\<exists>s\<in>set (stepsOf sharedDoc). v \<in> set (elems (getProp s ''volumes'')))"
    by blast
  from v i1 have v': "list_all (\<lambda>v. getProp v ''name'' \<noteq> JStr ''yarn'') (elems (getProp doc' ''volumes''))"
    unfolding list_all_iff by blast
  from s i2 have s': "list_all (\<lambda>st. list_all (\<lambda>v. getProp v ''name'' \<noteq> JStr ''yarn'') (elems (getProp st ''volumes'')))
        (stepsOf doc')"
    unfolding list_all_iff by blast
  from h a b d v' s' show ?thesis by blast
qed

subsection \<open>The mount setting\<close>

text \<open>
  C4. For a cache-eligible step of the data model (\<open>stepOk\<close>), the restore
  and the rebuild step the
  callback returns, which are the steps that stand before and after the step
  in the rewritten document, both have as \<open>settings.mount\<close> the registry paths
  of the kinds the step requests: the registry entries, in registry order,
  filtered to the requested kinds. These are exactly the paths of the members
  of the step's CacheSet, none occurs twice, and their order is the order of
  the registry table, not the order of the step's \<open>caches\<close>.
\<close>

theorem settings_mount:
  assumes "stepOk step" and "eligible step"
  shows "(\<exists>r s b used'. stepCallback p step used = Inr (JArr [r, s, b], used') \<and>
           getProp (getProp r ''settings'') ''mount'' = JArr (map JStr (mountPaths step)) \<and>
           getProp (getProp b ''settings'') ''mount'' = JArr (map JStr (mountPaths step))) \<and>
         (pipelineOk doc \<and> step \<in> set (stepsOf doc) \<longrightarrow>
           (\<exists>doc' pre r s b post. docProcessor p doc = Inr doc' \<and>
              stepsOf doc' = pre @ [r, s, b] @ post \<and> s = withMounts step \<and>
              getProp (getProp r ''settings'') ''mount'' = JArr (map JStr (mountPaths step)) \<and>
              getProp (getProp b ''settings'') ''mount'' = JArr (map JStr (mountPaths step)))) \<and>
         mountPaths step = map snd (filter (\<lambda>(cache, path). JStr cache \<in> set (cachesOf step)) cacheMap) \<and>
         set (mountPaths step) =
           {path. \<exists>k. JStr k \<in> set (cacheSet step) \<and> map_of cacheMap k = Some path} \<and>
         distinct (mountPaths step) \<and>
         subseq (mountPaths step) (map snd cacheMap)"
proof (intro conjI impI)
  show "\<exists>r s b used'. stepCallback p step used = Inr (JArr [r, s, b], used') \<and>
           getProp (getProp r ''settings'') ''mount'' = JArr (map JStr (mountPaths step)) \<and>
           getProp (getProp b ''settings'') ''mount'' = JArr (map JStr (mountPaths step))"
    using stepCallback_eligible[OF assms stepOk_name[OF assms(1)], of p used]
    by (simp add: wrapper_mount)
next
  assume d: "pipelineOk doc \<and> step \<in> set (stepsOf doc)"
  from rewritten_segment[of doc step p] d assms(2) obtain pre post where
    "stepsOf (rewritten p doc) =
           pre @ [wrapper p step (nameOf step) ''restore'', withMounts step,
                  wrapper p step (nameOf step) ''rebuild''] @ post"
    by blast
  with docProcessor_pipeline[of doc p] d
  show "\<exists>doc' pre r s b post. docProcessor p doc = Inr doc' \<and>
              stepsOf doc' = pre @ [r, s, b] @ post \<and> s = withMounts step \<and>
              getProp (getProp r ''settings'') ''mount'' = JArr (map JStr (mountPaths step)) \<and>
              getProp (getProp b ''settings'') ''mount'' = JArr (map JStr (mountPaths step))"
    using wrapper_mount[of p step "nameOf step"] by blast
next
  show "mountPaths step = map snd (filter (\<lambda>(cache, path). JStr cache \<in> set (cachesOf step)) cacheMap)"
    by (simp add: mountPaths_def)
  show "set (mountPaths step) =
           {path. \<exists>k. JStr k \<in> set (cacheSet step) \<and> map_of cacheMap k = Some path}"
    by (rule set_mountPaths)
  show "distinct (mountPaths step)" by (rule distinct_mountPaths)
  show "subseq (mountPaths step) (map snd cacheMap)" by (rule subseq_mountPaths)
qed

theorem settings_mount_witness:
  "stepOk manyStep \<and> eligible manyStep \<and> pipelineOk sharedDoc \<and> manyStep \<in> set (stepsOf sharedDoc) \<and>
   cachesOf manyStep = [JStr ''npm'', JStr ''composer'', JStr ''npm'', JStr ''foo'', JStr ''yarn''] \<and>
   (\<exists>r s b used'. stepCallback testPlugin manyStep [] = Inr (JArr [r, s, b], used') \<and>
      getProp (getProp r ''settings'') ''mount'' =
        JArr [JStr ''/root/.composer/cache'', JStr ''/root/.npm'', JStr ''.yarn/cache''] \<and>
      getProp (getProp b ''settings'') ''mount'' =
        JArr [JStr ''/root/.composer/cache'', JStr ''/root/.npm'', JStr ''.yarn/cache'']) \<and>
   (\<exists>doc' pre r s b post. docProcessor testPlugin sharedDoc = Inr doc' \<and>
      stepsOf doc' = pre @ [r, s, b] @ post \<and> s = withMounts manyStep \<and>
      getProp (getProp r ''settings'') ''mount'' =
        JArr [JStr ''/root/.composer/cache'', JStr ''/root/.npm'', JStr ''.yarn/cache''] \<and>
      getProp (getProp b ''settings'') ''mount'' =
        JArr [JStr ''/root/.composer/cache'', JStr ''/root/.npm'', JStr ''.yarn/cache''])"
proof -
  have h: "stepOk manyStep" "eligible manyStep" by code_simp+
  have d: "pipelineOk sharedDoc" "manyStep \<in> set (stepsOf sharedDoc)" by code_simp+
  have c: "cachesOf manyStep = [JStr ''npm'', JStr ''composer'', JStr ''npm'', JStr ''foo'', JStr ''yarn'']"
    by code_simp
  have m: "map JStr (mountPaths manyStep) =
             [JStr ''/root/.composer/cache'', JStr ''/root/.npm'', JStr ''.yarn/cache'']"
    by code_simp
  note t = settings_mount[OF h, of testPlugin "[]" sharedDoc, unfolded m]
  from t have 1: "\<exists>r s b used'. stepCallback testPlugin manyStep [] = Inr (JArr [r, s, b], used') \<and>
      getProp (getProp r ''settings'') ''mount'' =
        JArr [JStr ''/root/.composer/cache'', JStr ''/root/.npm'', JStr ''.yarn/cache''] \<and>
      getProp (getProp b ''settings'') ''mount'' =
        JArr [JStr ''/root/.composer/cache'', JStr ''/root/.npm'', JStr ''.yarn/cache'']"
    by (rule conjunct1)
  from t d have 2: "\<exists>doc' pre r s b post. docProcessor testPlugin sharedDoc = Inr doc' \<and>
      stepsOf doc' = pre @ [r, s, b] @ post \<and> s = withMounts manyStep \<and>
      getProp (getProp r ''settings'') ''mount'' =
        JArr [JStr ''/root/.composer/cache'', JStr ''/root/.npm'', JStr ''.yarn/cache''] \<and>
      getProp (getProp b ''settings'') ''mount'' =
        JArr [JStr ''/root/.composer/cache'', JStr ''/root/.npm'', JStr ''.yarn/cache'']"
    by blast
  from h d c 1 2 show ?thesis by blast
qed

subsection \<open>The environment of the generated steps\<close>

text \<open>
  C5. For an environment (a mapping: no key twice), the environment of the
  plugin is the list of the entries whose key begins with \<open>CACHE_\<close>, in
  their order, each with that prefix replaced by \<open>PLUGIN_\<close> and the rest of
  the key and the value kept; no other entry is in it. The restore and the
  rebuild step of every cache-eligible step, as the callback returns them and
  as they stand in the rewritten document, carry this environment.
\<close>

theorem cache_environment:
  assumes "distinct (map fst env)" and "stepOk step" and "eligible step"
  shows "cacheEnv (Plugin img path env) =
           map (\<lambda>(key, val). (''PLUGIN_'' @ drop 6 key, val))
             (filter (\<lambda>(key, val). take 6 key = ''CACHE_'') env) \<and>
         (\<exists>r s b used'. stepCallback (Plugin img path env) step used = Inr (JArr [r, s, b], used') \<and>
            getProp r ''environment'' = JObj (cacheEnv (Plugin img path env)) \<and>
            getProp b ''environment'' = JObj (cacheEnv (Plugin img path env))) \<and>
         (pipelineOk doc \<and> step \<in> set (stepsOf doc) \<longrightarrow>
           (\<exists>doc' pre r s b post. docProcessor (Plugin img path env) doc = Inr doc' \<and>
              stepsOf doc' = pre @ [r, s, b] @ post \<and> s = withMounts step \<and>
              getProp r ''environment'' = JObj (cacheEnv (Plugin img path env)) \<and>
              getProp b ''environment'' = JObj (cacheEnv (Plugin img path env))))"
proof (intro conjI impI)
  have "cacheEnv (Plugin img path env) = getCacheEnv env" by (simp add: Plugin_def)
  also have "\<dots> = map renamed (filter (\<lambda>(key, val). matchCACHE key) env)"
    using assms(1) by (rule getCacheEnv_eq)
  finally show "cacheEnv (Plugin img path env) =
           map (\<lambda>(key, val). (''PLUGIN_'' @ drop 6 key, val))
             (filter (\<lambda>(key, val). take 6 key = ''CACHE_'') env)"
    unfolding renamed_def matchCACHE_def .
next
  show "\<exists>r s b used'. stepCallback (Plugin img path env) step used = Inr (JArr [r, s, b], used') \<and>
            getProp r ''environment'' = JObj (cacheEnv (Plugin img path env)) \<and>
            getProp b ''environment'' = JObj (cacheEnv (Plugin img path env))"
    using stepCallback_eligible[OF assms(2,3) stepOk_name[OF assms(2)], of "Plugin img path env" used]
    by (simp add: wrapper_environment)
next
  assume d: "pipelineOk doc \<and> step \<in> set (stepsOf doc)"
  let ?p = "Plugin img path env"
  from rewritten_segment[of doc step ?p] d assms(3) obtain pre post where
    "stepsOf (rewritten ?p doc) =
           pre @ [wrapper ?p step (nameOf step) ''restore'', withMounts step,
                  wrapper ?p step (nameOf step) ''rebuild''] @ post"
    by blast
  with docProcessor_pipeline[of doc ?p] d
  show "\<exists>doc' pre r s b post. docProcessor ?p doc = Inr doc' \<and>
              stepsOf doc' = pre @ [r, s, b] @ post \<and> s = withMounts step \<and>
              getProp r ''environment'' = JObj (cacheEnv ?p) \<and>
              getProp b ''environment'' = JObj (cacheEnv ?p)"
    using wrapper_environment[of ?p step "nameOf step"] by blast
qed

theorem cache_environment_witness:
  "distinct (map fst exampleEnv) \<and> stepOk buildStep \<and> eligible buildStep \<and>
   pipelineOk exampleDoc \<and> buildStep \<in> set (stepsOf exampleDoc) \<and>
   cacheEnv (Plugin ''foo'' ''/tmp/cache'' exampleEnv) =
     [(''PLUGIN_BACKEND'', JStr ''filesystem''), (''PLUGIN_ARCHIVE_FORMAT'', JStr ''gzip'')] \<and>
   (\<exists>r s b used'. stepCallback (Plugin ''foo'' ''/tmp/cache'' exampleEnv) buildStep [] = Inr (JArr [r, s, b], used') \<and>
      getProp r ''environment'' =
        JObj [(''PLUGIN_BACKEND'', JStr ''filesystem''), (''PLUGIN_ARCHIVE_FORMAT'', JStr ''gzip'')] \<and>
      getProp b ''environment'' =
        JObj [(''PLUGIN_BACKEND'', JStr ''filesystem''), (''PLUGIN_ARCHIVE_FORMAT'', JStr ''gzip'')]) \<and>
   (\<exists>doc' pre r s b post. docProcessor (Plugin ''foo'' ''/tmp/cache'' exampleEnv) exampleDoc = Inr doc' \<and>
      stepsOf doc' = pre @ [r, s, b] @ post \<and> s = withMounts buildStep \<and>
      getProp r ''environment'' =
        JObj [(''PLUGIN_BACKEND'', JStr ''filesystem''), (''PLUGIN_ARCHIVE_FORMAT'', JStr ''gzip'')] \<and>
      getProp b ''environment'' =
        JObj [(''PLUGIN_BACKEND'', JStr ''filesystem''), (''PLUGIN_ARCHIVE_FORMAT'', JStr ''gzip'')])"
proof -
  have h: "distinct (map fst exampleEnv)" "stepOk buildStep" "eligible buildStep" by code_simp+
  have d: "pipelineOk exampleDoc" "buildStep \<in> set (stepsOf exampleDoc)" by code_simp+
  have e: "map (\<lambda>(key, val). (''PLUGIN_'' @ drop 6 key, val))
             (filter (\<lambda>(key, val). take 6 key = ''CACHE_'') exampleEnv) =
           [(''PLUGIN_BACKEND'', JStr ''filesystem''), (''PLUGIN_ARCHIVE_FORMAT'', JStr ''gzip'')]"
    by code_simp
  note t = cache_environment[OF h, of "''foo''" "''/tmp/cache''" "[]" exampleDoc]
  from t e have c: "cacheEnv (Plugin ''foo'' ''/tmp/cache'' exampleEnv) =
     [(''PLUGIN_BACKEND'', JStr ''filesystem''), (''PLUGIN_ARCHIVE_FORMAT'', JStr ''gzip'')]"
    by simp
  from t have 1: "\<exists>r s b used'. stepCallback (Plugin ''foo'' ''/tmp/cache'' exampleEnv) buildStep [] = Inr (JArr [r, s, b], used') \<and>
      getProp r ''environment'' =
        JObj [(''PLUGIN_BACKEND'', JStr ''filesystem''), (''PLUGIN_ARCHIVE_FORMAT'', JStr ''gzip'')] \<and>
      getProp b ''environment'' =
        JObj [(''PLUGIN_BACKEND'', JStr ''filesystem''), (''PLUGIN_ARCHIVE_FORMAT'', JStr ''gzip'')]"
    unfolding c by blast
  from t d have 2: "\<exists>doc' pre r s b post. docProcessor (Plugin ''foo'' ''/tmp/cache'' exampleEnv) exampleDoc = Inr doc' \<and>
      stepsOf doc' = pre @ [r, s, b] @ post \<and> s = withMounts buildStep \<and>
      getProp r ''environment'' =
        JObj [(''PLUGIN_BACKEND'', JStr ''filesystem''), (''PLUGIN_ARCHIVE_FORMAT'', JStr ''gzip'')] \<and>
      getProp b ''environment'' =
        JObj [(''PLUGIN_BACKEND'', JStr ''filesystem''), (''PLUGIN_ARCHIVE_FORMAT'', JStr ''gzip'')]"
    unfolding c by blast
  from h d c 1 2 show ?thesis by blast
qed

subsection \<open>Steps without a usable cache request\<close>

text \<open>
  C6, as stated, fails on four inputs. An entry of \<open>steps\<close> that is null has
  no \<open>caches\<close> field, and \<open>Object.hasOwn\<close> throws on it. An entry that is a
  sequence has no \<open>caches\<close> field either, and \<open>flatMap\<close> splices it, so the
  number of steps changes. A \<open>caches\<close> sequence whose one entry is a mapping
  with a field \<open>toString\<close> holds no kind of the registry, and the registry
  test throws on it. And in \<open>lintStore\<close> the step \<open>lint\<close>, without caches,
  shares its \<open>volumes\<close> with a cached step: it is written with the mount of
  that step.
\<close>

theorem uncached_step_passes_counterexample:
  "processFresh testPlugin (JObj [(''kind'', JStr ''pipeline''), (''steps'', JArr [JNull])])
     = Inl (TypeError NullishToObject) \<and>
   yields (processFresh testPlugin
             (JObj [(''kind'', JStr ''pipeline''), (''steps'', JArr [JArr [JStr ''a'', JStr ''b'']])]))
     (JObj [(''kind'', JStr ''pipeline''), (''steps'', JArr [JStr ''a'', JStr ''b''])]) \<and>
   processFresh testPlugin
       (JObj [(''kind'', JStr ''pipeline''),
              (''steps'', JArr [JObj [(''caches'', JArr [JObj [(''toString'', JNum 1)]])]])])
     = Inl (TypeError NotPrimitive) \<and>
   denotes lintStore (HRef 0) lintDoc \<and> uncachedH lintStore (HRef 2) \<and>
   yields (docProcessorH testPlugin lintStore (HRef 0))
     (JObj [(''kind'', JStr ''pipeline''),
            (''steps'', JArr [setProp lintStep ''volumes'' (JArr [npmMount]),
                              wrapper testPlugin (stepsOf lintDoc ! 1) ''build'' ''restore'',
                              withMounts (stepsOf lintDoc ! 1),
                              wrapper testPlugin (stepsOf lintDoc ! 1) ''build'' ''rebuild'']),
            (''volumes'', JArr [hostVolume testPlugin,
                                JObj [(''name'', JStr ''npm''), (''temp'', JObj [])]])]) \<and>
   setProp lintStep ''volumes'' (JArr [npmMount]) \<noteq> lintStep"
  by code_simp

text \<open>
  C6, amended. For a step that is neither null nor a sequence and whose
  \<open>caches\<close> is absent, or is no sequence, or holds only entries that the
  registry test rejects without failing, as it does every string that is no
  kind of the registry: the callback never fails, it returns the step itself,
  writes nothing to the store and leaves the set of used caches alone; the
  step is one element of the rewritten sequence, whatever the steps after it
  yield; a sequence of such steps is returned as it is, so the number of
  steps is unchanged; and for a pipeline document with such steps and no
  field named \<open>hasOwnProperty\<close> the processor writes one thing, the new
  sequence of the same steps that it assigns to \<open>steps\<close>, so that a document
  without sharing is written as it was.
\<close>

theorem uncached_step_passes:
  assumes "uncachedH h step"
  shows "stepCallbackH p h step used = Inr (h, step, used) \<and>
         flatMapStepsH p h (step # rest) used =
           (case flatMapStepsH p h rest used of
              Inl e \<Rightarrow> Inl e
            | Inr (h', rs, u) \<Rightarrow> Inr (h', step # rs, u)) \<and>
         (list_all (uncachedH h) rest \<longrightarrow>
            flatMapStepsH p h (step # rest) used = Inr (h, step # rest, used)) \<and>
         (list_all (uncachedH h) rest \<and> hGetProp h d ''kind'' = HStr ''pipeline'' \<and>
          \<not> hHasOwn h d ''hasOwnProperty'' \<and>
          cell h (hGetProp h d ''steps'') = Some (HArr (step # rest))
            \<longrightarrow> docProcessorH p h d =
                  Inr (hSetProp (h @ [HArr (step # rest)]) d ''steps'' (HRef (length h)), d) \<and>
                (unshared h d doc \<longrightarrow> yields (docProcessorH p h d) doc)) \<and>
         (\<forall>k. map_of cacheMap k = None \<longrightarrow> unsupportedH h (HStr k))"
proof -
  have "docProcessorH p h d = Inr (hSetProp (h @ [HArr (step # rest)]) d ''steps'' (HRef (length h)), d) \<and>
        (unshared h d doc \<longrightarrow> yields (docProcessorH p h d) doc)"
    if r: "list_all (uncachedH h) rest" and k: "hGetProp h d ''kind'' = HStr ''pipeline''"
      and nh: "\<not> hHasOwn h d ''hasOwnProperty''"
      and s: "cell h (hGetProp h d ''steps'') = Some (HArr (step # rest))"
  proof -
    from assms r have "list_all (uncachedH h) (step # rest)" by simp
    with k nh s have
      e: "docProcessorH p h d = Inr (hSetProp (h @ [HArr (step # rest)]) d ''steps'' (HRef (length h)), d)"
      by (rule docProcessorH_uncached)
    have "yields (docProcessorH p h d) doc" if "unshared h d doc"
      using docProcessorH_uncached_denotes[OF k s that] by (simp add: e yields_def)
    with e show ?thesis by blast
  qed
  moreover have "flatMapStepsH p h (step # rest) used = Inr (h, step # rest, used)"
    if "list_all (uncachedH h) rest"
    using that assms flatMapStepsH_uncached[of h "step # rest" p used] by simp
  ultimately show ?thesis
    using uncachedH_callback[OF assms, of p used] flatMapStepsH_uncached_Cons[OF assms, of p rest used]
      unregistered_unsupportedH[of _ h]
    by blast
qed

theorem uncached_step_passes_witness:
  "uncachedH plainStore (HRef 2) \<and> uncachedH plainStore (HRef 3) \<and> uncachedH plainStore (HRef 4) \<and>
   map_of cacheMap ''foo'' = None \<and> unsupportedH plainStore (HStr ''foo'') \<and>
   stepCallbackH testPlugin plainStore (HRef 2) [] = Inr (plainStore, HRef 2, []) \<and>
   stepCallbackH testPlugin plainStore (HRef 3) [] = Inr (plainStore, HRef 3, []) \<and>
   stepCallbackH testPlugin plainStore (HRef 4) [] = Inr (plainStore, HRef 4, []) \<and>
   flatMapStepsH testPlugin plainStore [HRef 2, HRef 3, HRef 4] []
     = Inr (plainStore, [HRef 2, HRef 3, HRef 4], []) \<and>
   docProcessorH testPlugin plainStore (HRef 0)
     = Inr ([HObj [(''kind'', HStr ''pipeline''), (''steps'', HRef 6)],
             HArr [HRef 2, HRef 3, HRef 4],
             HObj [(''name'', HStr ''bar'')],
             HObj [(''caches'', HStr ''npm'')],
             HObj [(''caches'', HRef 5)],
             HArr [HStr ''foo''],
             HArr [HRef 2, HRef 3, HRef 4]], HRef 0) \<and>
   unshared plainStore (HRef 0) plainDocument \<and>
   yields (docProcessorH testPlugin plainStore (HRef 0)) plainDocument"
proof -
  have h: "uncachedH plainStore (HRef 2)" "uncachedH plainStore (HRef 3)" "uncachedH plainStore (HRef 4)"
    by code_simp+
  have r: "list_all (uncachedH plainStore) [HRef 3, HRef 4]" using h by simp
  have d: "hGetProp plainStore (HRef 0) ''kind'' = HStr ''pipeline''"
    "\<not> hHasOwn plainStore (HRef 0) ''hasOwnProperty''"
    "cell plainStore (hGetProp plainStore (HRef 0) ''steps'') = Some (HArr [HRef 2, HRef 3, HRef 4])"
    by code_simp+
  have m: "map_of cacheMap ''foo'' = None" by code_simp
  have e: "hSetProp (plainStore @ [HArr [HRef 2, HRef 3, HRef 4]]) (HRef 0) ''steps'' (HRef (length plainStore))
           = [HObj [(''kind'', HStr ''pipeline''), (''steps'', HRef 6)],
             HArr [HRef 2, HRef 3, HRef 4],
             HObj [(''name'', HStr ''bar'')],
             HObj [(''caches'', HStr ''npm'')],
             HObj [(''caches'', HRef 5)],
             HArr [HStr ''foo''],
             HArr [HRef 2, HRef 3, HRef 4]]"
    by code_simp
  have u: "unshared plainStore (HRef 0) plainDocument" by code_simp
  note a = uncached_step_passes[OF h(1), of testPlugin "[]" "[HRef 3, HRef 4]" "HRef 0" plainDocument]
  note b = uncached_step_passes[OF h(2), of testPlugin "[]" "[]" "HRef 0" plainDocument]
  note c = uncached_step_passes[OF h(3), of testPlugin "[]" "[]" "HRef 0" plainDocument]
  from a have a1: "stepCallbackH testPlugin plainStore (HRef 2) [] = Inr (plainStore, HRef 2, [])"
    by (rule conjunct1)
  from b have b1: "stepCallbackH testPlugin plainStore (HRef 3) [] = Inr (plainStore, HRef 3, [])"
    by (rule conjunct1)
  from c have c1: "stepCallbackH testPlugin plainStore (HRef 4) [] = Inr (plainStore, HRef 4, [])"
    by (rule conjunct1)
  from a r have a3: "flatMapStepsH testPlugin plainStore [HRef 2, HRef 3, HRef 4] []
      = Inr (plainStore, [HRef 2, HRef 3, HRef 4], [])"
    by blast
  from a r d have "docProcessorH testPlugin plainStore (HRef 0)
      = Inr (hSetProp (plainStore @ [HArr [HRef 2, HRef 3, HRef 4]]) (HRef 0) ''steps''
               (HRef (length plainStore)), HRef 0)"
    by blast
  then have a4: "docProcessorH testPlugin plainStore (HRef 0)
     = Inr ([HObj [(''kind'', HStr ''pipeline''), (''steps'', HRef 6)],
             HArr [HRef 2, HRef 3, HRef 4],
             HObj [(''name'', HStr ''bar'')],
             HObj [(''caches'', HStr ''npm'')],
             HObj [(''caches'', HRef 5)],
             HArr [HStr ''foo''],
             HArr [HRef 2, HRef 3, HRef 4]], HRef 0)"
    by (simp only: e)
  from a r d u have a6: "yields (docProcessorH testPlugin plainStore (HRef 0)) plainDocument" by blast
  from a m have a5: "unsupportedH plainStore (HStr ''foo'')" by blast
  from h m a5 a1 b1 c1 a3 a4 u a6 show ?thesis by blast
qed

subsection \<open>Documents handed on unchanged\<close>

text \<open>
  C7, as stated, fails: a null document has no kind \<open>pipeline\<close> and is not
  handed on, the processor throws on reading its \<open>kind\<close>; and a pipeline
  document without \<open>steps\<close> that has a field named \<open>hasOwnProperty\<close> makes
  the call of line 81 throw.
\<close>

theorem docProcessor_passthrough_counterexample:
  "getProp JNull ''kind'' \<noteq> JStr ''pipeline'' \<and>
   docProcessor (Plugin ''foo'' ''/tmp/cache'' []) JNull = Inl (TypeError (ReadOfNullish ''kind'')) \<and>
   getProp (JObj [(''kind'', JStr ''pipeline''), (''hasOwnProperty'', JNum 1)]) ''kind'' = JStr ''pipeline'' \<and>
   \<not> hasOwn (JObj [(''kind'', JStr ''pipeline''), (''hasOwnProperty'', JNum 1)]) ''steps'' \<and>
   docProcessor (Plugin ''foo'' ''/tmp/cache'' [])
       (JObj [(''kind'', JStr ''pipeline''), (''hasOwnProperty'', JNum 1)])
     = Inl (TypeError (NotAFunction ''doc.hasOwnProperty''))"
  by (simp add: getProp_def hasOwn_def docProcessor_def structuredClone_def nullish_def
        doc_hasOwnProperty_def)

text \<open>
  C7, amended. A document that is not null and whose \<open>kind\<close> is not
  \<open>pipeline\<close>, and a pipeline document with no \<open>steps\<close> field and no field
  named \<open>hasOwnProperty\<close>, is handed on as it is: the processor returns the
  very document, with no step expanded and no volume added.
\<close>

theorem docProcessor_passthrough:
  assumes "\<not> nullish D"
    and "getProp D ''kind'' \<noteq> JStr ''pipeline''
         \<or> (\<not> hasOwn D ''steps'' \<and> \<not> hasOwn D ''hasOwnProperty'')"
  shows "docProcessor p D = Inr D"
  using assms by (auto simp: docProcessor_def structuredClone_def doc_hasOwnProperty_def)

theorem docProcessor_passthrough_witness:
  "\<not> nullish (JObj [(''kind'', JStr ''foo''), (''steps'', JArr [JObj [(''caches'', JArr [JStr ''npm''])]])]) \<and>
   getProp (JObj [(''kind'', JStr ''foo''), (''steps'', JArr [JObj [(''caches'', JArr [JStr ''npm''])]])])
     ''kind'' \<noteq> JStr ''pipeline'' \<and>
   docProcessor (Plugin ''foo'' ''/tmp/cache'' [])
       (JObj [(''kind'', JStr ''foo''), (''steps'', JArr [JObj [(''caches'', JArr [JStr ''npm''])]])])
     = Inr (JObj [(''kind'', JStr ''foo''), (''steps'', JArr [JObj [(''caches'', JArr [JStr ''npm''])]])]) \<and>
   \<not> nullish (JObj [(''kind'', JStr ''pipeline'')]) \<and>
   \<not> hasOwn (JObj [(''kind'', JStr ''pipeline'')]) ''steps'' \<and>
   \<not> hasOwn (JObj [(''kind'', JStr ''pipeline'')]) ''hasOwnProperty'' \<and>
   docProcessor (Plugin ''foo'' ''/tmp/cache'' []) (JObj [(''kind'', JStr ''pipeline'')])
     = Inr (JObj [(''kind'', JStr ''pipeline'')])"
proof -
  let ?D1 = "JObj [(''kind'', JStr ''foo''), (''steps'', JArr [JObj [(''caches'', JArr [JStr ''npm''])]])]"
  let ?D2 = "JObj [(''kind'', JStr ''pipeline'')]"
  have a: "\<not> nullish ?D1" "\<not> nullish ?D2" by (simp_all add: nullish_def)
  have b: "getProp ?D1 ''kind'' \<noteq> JStr ''pipeline''" by (simp add: getProp_def)
  have c: "\<not> hasOwn ?D2 ''steps''" "\<not> hasOwn ?D2 ''hasOwnProperty''" by (simp_all add: hasOwn_def)
  from a b c docProcessor_passthrough[of ?D1 "Plugin ''foo'' ''/tmp/cache'' []"]
    docProcessor_passthrough[of ?D2 "Plugin ''foo'' ''/tmp/cache'' []"]
  show ?thesis by blast
qed

subsection \<open>Streams without a cache request\<close>

text \<open>
  C8, as stated, fails. None of the six streams below has a cache-eligible
  step. For the stream whose one document is null \<open>run\<close> returns no text:
  it throws. In a pipeline whose one step is a sequence, \<open>flatMap\<close> splices
  the sequence into the steps, so that the document that is serialised is not
  the parsed one. The processor throws as well for a pipeline with a field
  named \<open>hasOwnProperty\<close>, for \<open>steps\<close> that is no sequence, for a step that
  is null, and for a \<open>caches\<close> entry that does not convert to a property key.
\<close>

theorem run_plain_stream_counterexample:
  "list_all noEligibleStep [JNull] \<and>
   run (parsesTo [JNull]) dumpStub testPlugin ''---'' = Inl (TypeError (ReadOfNullish ''kind'')) \<and>
   noEligibleStep (JObj [(''kind'', JStr ''pipeline''), (''steps'', JArr [JArr [JStr ''a'']])]) \<and>
   processAll testPlugin [JObj [(''kind'', JStr ''pipeline''), (''steps'', JArr [JArr [JStr ''a'']])]]
     = Inr [JObj [(''kind'', JStr ''pipeline''), (''steps'', JArr [JStr ''a''])]] \<and>
   noEligibleStep (JObj [(''kind'', JStr ''pipeline''), (''hasOwnProperty'', JNum 1),
                         (''steps'', JArr [JObj [(''name'', JStr ''bar'')]])]) \<and>
   processAll testPlugin [JObj [(''kind'', JStr ''pipeline''), (''hasOwnProperty'', JNum 1),
                                (''steps'', JArr [JObj [(''name'', JStr ''bar'')]])]]
     = Inl (TypeError (NotAFunction ''doc.hasOwnProperty'')) \<and>
   noEligibleStep (JObj [(''kind'', JStr ''pipeline''), (''steps'', JStr ''bar'')]) \<and>
   processAll testPlugin [JObj [(''kind'', JStr ''pipeline''), (''steps'', JStr ''bar'')]]
     = Inl (TypeError (NotAFunction ''doc.steps.flatMap'')) \<and>
   noEligibleStep (JObj [(''kind'', JStr ''pipeline''), (''steps'', JArr [JNull])]) \<and>
   processAll testPlugin [JObj [(''kind'', JStr ''pipeline''), (''steps'', JArr [JNull])]]
     = Inl (TypeError NullishToObject) \<and>
   noEligibleStep (JObj [(''kind'', JStr ''pipeline''),
                         (''steps'', JArr [JObj [(''caches'', JArr [JObj [(''toString'', JNum 1)]])]])]) \<and>
   processAll testPlugin
       [JObj [(''kind'', JStr ''pipeline''),
              (''steps'', JArr [JObj [(''caches'', JArr [JObj [(''toString'', JNum 1)]])]])]]
     = Inl (TypeError NotPrimitive)"
  by code_simp

text \<open>
  C8, amended. When every parsed document is not null, and every pipeline
  document among them has no field named \<open>hasOwnProperty\<close> and, if it has
  \<open>steps\<close>, has a sequence of steps that are neither null nor sequences and
  carry no usable cache request, the documents \<open>run\<close> serialises are the
  parsed documents, unchanged and in order, and \<open>run\<close> returns their
  serialisation. So with a YAML library that reads this serialisation back as
  these documents the output parses to the parsed input.
\<close>

theorem run_plain_stream:
  assumes "yamlParse config = Inr docs" and "list_all plainDoc docs"
  shows "processAll p docs = Inr docs \<and>
         run yamlParse yamlDump p config = Inr (serialise yamlDump docs) \<and>
         (yamlParse (serialise yamlDump docs) = Inr docs \<longrightarrow>
            (\<exists>out. run yamlParse yamlDump p config = Inr out \<and> yamlParse out = yamlParse config))"
  using processAll_plain[OF assms(2), of p] assms(1)
  by (simp add: run_def serialise_def)

theorem run_plain_stream_witness:
  "parsesTo plainStream ''---'' = Inr plainStream \<and> list_all plainDoc plainStream \<and>
   processAll testPlugin plainStream = Inr plainStream \<and>
   run (parsesTo plainStream) dumpStub testPlugin ''---'' = Inr (serialise dumpStub plainStream) \<and>
   (\<exists>out. run (parsesTo plainStream) dumpStub testPlugin ''---'' = Inr out \<and>
          parsesTo plainStream out = parsesTo plainStream ''---'')"
proof -
  have p: "parsesTo plainStream ''---'' = Inr plainStream" by (simp add: parsesTo_def)
  have h: "list_all plainDoc plainStream" by code_simp
  have b: "parsesTo plainStream (serialise dumpStub plainStream) = Inr plainStream"
    by (simp add: parsesTo_def)
  from run_plain_stream[of "parsesTo plainStream" "''---''" plainStream testPlugin dumpStub, OF p h] p h b
  show ?thesis by blast
qed

subsection \<open>Empty documents and the empty stream\<close>

text \<open>
  C9. When the parsed stream holds a null document, \<open>run\<close> throws a TypeError,
  never a parse error, and returns no text. When the documents before the
  null one are processed without failure, the TypeError is the one of reading
  \<open>kind\<close> of null.
\<close>

theorem run_null_document:
  assumes "yamlParse config = Inr docs" and "JNull \<in> set docs"
  shows "(\<exists>t. run yamlParse yamlDump p config = Inl (TypeError t)) \<and>
         (\<forall>pre post. docs = pre @ JNull # post \<and> (\<forall>d\<in>set pre. \<exists>d'. docProcessor p d = Inr d')
            \<longrightarrow> run yamlParse yamlDump p config = Inl (TypeError (ReadOfNullish ''kind'')))"
proof (intro conjI allI impI)
  from assms(2) obtain e where e: "processAll p docs = Inl e"
    using processAll_null_fails by blast
  then obtain t where "e = TypeError t" using processAll_error by blast
  with e show "\<exists>t. run yamlParse yamlDump p config = Inl (TypeError t)"
    by (simp add: run_def assms(1))
next
  fix pre post
  assume h: "docs = pre @ JNull # post \<and> (\<forall>d\<in>set pre. \<exists>d'. docProcessor p d = Inr d')"
  then have "processAll p docs = Inl (TypeError (ReadOfNullish ''kind''))"
    by (simp add: processAll_append_ok docProcessor_null)
  then show "run yamlParse yamlDump p config = Inl (TypeError (ReadOfNullish ''kind''))"
    by (simp add: run_def assms(1))
qed

theorem run_null_document_witness:
  "parsesTo [JObj [(''kind'', JStr ''foo'')], JNull] ''kind: foo'' = Inr [JObj [(''kind'', JStr ''foo'')], JNull] \<and>
   JNull \<in> set [JObj [(''kind'', JStr ''foo'')], JNull] \<and>
   run (parsesTo [JObj [(''kind'', JStr ''foo'')], JNull]) dumpStub testPlugin ''kind: foo''
     = Inl (TypeError (ReadOfNullish ''kind''))"
proof -
  let ?d = "JObj [(''kind'', JStr ''foo'')]"
  have p: "parsesTo [?d, JNull] ''kind: foo'' = Inr [?d, JNull]" by (simp add: parsesTo_def)
  have mem: "JNull \<in> set [?d, JNull]" by simp
  have ok: "\<forall>d\<in>set [?d]. \<exists>d'. docProcessor testPlugin d = Inr d'"
    by (simp add: docProcessor_def structuredClone_def nullish_def getProp_def)
  have "\<forall>pre post. [?d, JNull] = pre @ JNull # post \<and> (\<forall>d\<in>set pre. \<exists>d'. docProcessor testPlugin d = Inr d')
          \<longrightarrow> run (parsesTo [?d, JNull]) dumpStub testPlugin ''kind: foo''
              = Inl (TypeError (ReadOfNullish ''kind''))"
    using run_null_document[of "parsesTo [?d, JNull]" "''kind: foo''" "[?d, JNull]" dumpStub testPlugin, OF p mem] by blast
  then have "[?d, JNull] = [?d] @ JNull # [] \<and> (\<forall>d\<in>set [?d]. \<exists>d'. docProcessor testPlugin d = Inr d')
          \<longrightarrow> run (parsesTo [?d, JNull]) dumpStub testPlugin ''kind: foo''
              = Inl (TypeError (ReadOfNullish ''kind''))"
    by blast
  with ok mem p show ?thesis by simp
qed

text \<open>
  C10. When the parsed stream is empty, \<open>run\<close> returns the text of one document
  marker and a line feed. With a parser that reads this text as one null
  document, the output parses to a stream that is not the parsed input.
\<close>

theorem run_empty_stream:
  assumes "yamlParse config = Inr []"
  shows "run yamlParse yamlDump p config = Inr (''---'' @ [CHR 0x0A]) \<and>
         (yamlParse (''---'' @ [CHR 0x0A]) = Inr [JNull] \<longrightarrow>
            (\<exists>out. run yamlParse yamlDump p config = Inr out \<and> yamlParse out = Inr [JNull]
                    \<and> yamlParse out \<noteq> yamlParse config))"
  by (simp add: run_def assms)

theorem run_empty_stream_witness:
  "emptyOrNull '''' = Inr [] \<and> emptyOrNull (''---'' @ [CHR 0x0A]) = Inr [JNull] \<and>
   run emptyOrNull dumpStub testPlugin '''' = Inr (''---'' @ [CHR 0x0A]) \<and>
   (\<exists>out. run emptyOrNull dumpStub testPlugin '''' = Inr out \<and> emptyOrNull out = Inr [JNull]
          \<and> emptyOrNull out \<noteq> emptyOrNull '''')"
proof -
  have e: "emptyOrNull '''' = Inr []" by (simp add: emptyOrNull_def)
  have n: "emptyOrNull (''---'' @ [CHR 0x0A]) = Inr [JNull]" by (simp add: emptyOrNull_def)
  from run_empty_stream[of emptyOrNull "''''" dumpStub testPlugin, OF e] e n show ?thesis by blast
qed

end
